theory Spec2Isabelle
  imports Complex_Main "HOL-Library.Word"
begin

section \<open>Data: buffers, JavaScript strings, client messages\<close>

text \<open>
  A Node \<open>Buffer\<close> is a sequence of octets. A JavaScript string is a sequence of
  16-bit UTF-16 code units; nothing forces it to be well-formed UTF-16.
\<close>

type_synonym byte = "8 word"
type_synonym buffer = "byte list"
type_synonym unit16 = "16 word"
type_synonym jsstring = "unit16 list"

text \<open>
  The payload the \<open>ws\<close> library hands to a \<open>'message'\<close> listener: a \<open>Buffer\<close>, or
  (for text frames, in \<open>ws\<close> releases before 8) a string.
\<close>

datatype ws_data = BufferData buffer | StringData jsstring

section \<open>UTF-8 encoding of a string (\<open>Buffer.from(string)\<close>, \<open>ws.send(string)\<close>)\<close>

text \<open>
  Node's encoder: a code unit below 0x80 is one octet, below 0x800 two; a high surrogate
  followed by a low surrogate is one supplementary code point in four octets; any other
  surrogate is replaced by U+FFFD (EF BF BD); every other unit takes three octets.
\<close>

definition is_high_surrogate :: "nat \<Rightarrow> bool" where
  "is_high_surrogate c = (0xD800 \<le> c \<and> c < 0xDC00)"

definition is_low_surrogate :: "nat \<Rightarrow> bool" where
  "is_low_surrogate c = (0xDC00 \<le> c \<and> c < 0xE000)"

definition utf8_bytes :: "nat \<Rightarrow> buffer" where
  "utf8_bytes c =
     (if c < 0x80 then [of_nat c]
      else if c < 0x800 then [of_nat (0xC0 + c div 64), of_nat (0x80 + c mod 64)]
      else if c < 0x10000 then
        [of_nat (0xE0 + c div 4096), of_nat (0x80 + (c div 64) mod 64),
         of_nat (0x80 + c mod 64)]
      else
        [of_nat (0xF0 + c div 262144), of_nat (0x80 + (c div 4096) mod 64),
         of_nat (0x80 + (c div 64) mod 64), of_nat (0x80 + c mod 64)])"

definition pair_code_point :: "nat \<Rightarrow> nat \<Rightarrow> nat" where
  "pair_code_point hi lo = 0x10000 + (hi - 0xD800) * 1024 + (lo - 0xDC00)"

fun utf8_encode :: "jsstring \<Rightarrow> buffer" where
  "utf8_encode [] = []"
| "utf8_encode [u] =
     (if is_high_surrogate (unat u) \<or> is_low_surrogate (unat u) then utf8_bytes 0xFFFD
      else utf8_bytes (unat u))"
| "utf8_encode (u # v # us) =
     (if is_high_surrogate (unat u) then
        (if is_low_surrogate (unat v)
         then utf8_bytes (pair_code_point (unat u) (unat v)) @ utf8_encode us
         else utf8_bytes 0xFFFD @ utf8_encode (v # us))
      else if is_low_surrogate (unat u) then utf8_bytes 0xFFFD @ utf8_encode (v # us)
      else utf8_bytes (unat u) @ utf8_encode (v # us))"

section \<open>UTF-8 decoding of a buffer (\<open>buf.toString('utf8')\<close>)\<close>

text \<open>
  Node decodes as the WHATWG Encoding Standard does: an octet that cannot start or
  continue a sequence ends it, the octets read so far of an ill-formed sequence become one
  U+FFFD, and the offending octet is read again as the start of the next sequence.
  \<open>decode_step\<close> takes the octets from the current position and returns the code point
  and how many octets after the first it consumed.
\<close>

definition in_range :: "nat \<Rightarrow> nat \<Rightarrow> nat \<Rightarrow> bool" where
  "in_range lo hi b = (lo \<le> b \<and> b \<le> hi)"

definition second_lower :: "nat \<Rightarrow> nat" where
  "second_lower b1 = (if b1 = 0xE0 then 0xA0 else if b1 = 0xF0 then 0x90 else 0x80)"

definition second_upper :: "nat \<Rightarrow> nat" where
  "second_upper b1 = (if b1 = 0xED then 0x9F else if b1 = 0xF4 then 0x8F else 0xBF)"

fun decode_step :: "nat list \<Rightarrow> nat \<times> nat" where
  "decode_step [] = (0xFFFD, 0)"
| "decode_step (b1 # bs) =
     (if b1 < 0x80 then (b1, 0)
      else if in_range 0xC2 0xDF b1 then
        (case bs of
           b2 # _ \<Rightarrow>
             if in_range 0x80 0xBF b2 then ((b1 - 0xC0) * 64 + (b2 - 0x80), 1)
             else (0xFFFD, 0)
         | [] \<Rightarrow> (0xFFFD, 0))
      else if in_range 0xE0 0xEF b1 then
        (case bs of
           b2 # bs2 \<Rightarrow>
             if in_range (second_lower b1) (second_upper b1) b2 then
               (case bs2 of
                  b3 # _ \<Rightarrow>
                    if in_range 0x80 0xBF b3
                    then ((b1 - 0xE0) * 4096 + (b2 - 0x80) * 64 + (b3 - 0x80), 2)
                    else (0xFFFD, 1)
                | [] \<Rightarrow> (0xFFFD, 1))
             else (0xFFFD, 0)
         | [] \<Rightarrow> (0xFFFD, 0))
      else if in_range 0xF0 0xF4 b1 then
        (case bs of
           b2 # bs2 \<Rightarrow>
             if in_range (second_lower b1) (second_upper b1) b2 then
               (case bs2 of
                  b3 # bs3 \<Rightarrow>
                    if in_range 0x80 0xBF b3 then
                      (case bs3 of
                         b4 # _ \<Rightarrow>
                           if in_range 0x80 0xBF b4
                           then ((b1 - 0xF0) * 262144 + (b2 - 0x80) * 4096
                                 + (b3 - 0x80) * 64 + (b4 - 0x80), 3)
                           else (0xFFFD, 2)
                       | [] \<Rightarrow> (0xFFFD, 2))
                    else (0xFFFD, 1)
                | [] \<Rightarrow> (0xFFFD, 1))
             else (0xFFFD, 0)
         | [] \<Rightarrow> (0xFFFD, 0))
      else (0xFFFD, 0))"

text \<open>A code point as UTF-16: one unit in the basic plane, a surrogate pair above it.\<close>

definition utf16_units :: "nat \<Rightarrow> jsstring" where
  "utf16_units cp =
     (if cp < 0x10000 then [of_nat cp]
      else [of_nat (0xD800 + (cp - 0x10000) div 1024),
            of_nat (0xDC00 + (cp - 0x10000) mod 1024)])"

fun utf8_decode :: "buffer \<Rightarrow> jsstring" where
  "utf8_decode [] = []"
| "utf8_decode (b # bs) =
     (case decode_step (unat b # map unat bs) of
        (cp, extra) \<Rightarrow> utf16_units cp @ utf8_decode (drop extra bs))"

section \<open>String splitting (\<open>str.split(sep)\<close> with a one-unit separator)\<close>

text \<open>
  \<open>split\<close> cuts at every occurrence of the separator and keeps empty pieces; the result
  always has at least one element (the whole string when the separator does not occur).
\<close>

fun js_split :: "'a \<Rightarrow> 'a list \<Rightarrow> 'a list list" where
  "js_split sep [] = [[]]"
| "js_split sep (x # xs) =
     (if x = sep then [] # js_split sep xs
      else (case js_split sep xs of
              p # ps \<Rightarrow> (x # p) # ps
            | [] \<Rightarrow> [[x]]))"

section \<open>Base64 decoding (\<open>Buffer.from(path, 'base64')\<close>)\<close>

text \<open>
  \<open>req.url\<close> is a string of octets. Node's base64 decoder does not throw on a string:
  it takes the standard and the URL-safe alphabet, skips every other character, and stops
  at the first \<open>=\<close>. Four sextets give three octets; a final group of two or three
  sextets gives one or two octets, and a single left-over sextet gives none.
\<close>

definition unbase64 :: "char \<Rightarrow> nat option" where
  "unbase64 c =
     (let n = (of_char c :: nat) in
      if 65 \<le> n \<and> n \<le> 90 then Some (n - 65)
      else if 97 \<le> n \<and> n \<le> 122 then Some (n - 97 + 26)
      else if 48 \<le> n \<and> n \<le> 57 then Some (n - 48 + 52)
      else if c = CHR ''+'' \<or> c = CHR ''-'' then Some 62
      else if c = CHR ''/'' \<or> c = CHR ''_'' then Some 63
      else None)"

fun b64_sextets :: "string \<Rightarrow> nat list" where
  "b64_sextets [] = []"
| "b64_sextets (c # cs) =
     (case unbase64 c of
        Some v \<Rightarrow> v # b64_sextets cs
      | None \<Rightarrow> if c = CHR ''='' then [] else b64_sextets cs)"

fun sextets_to_bytes :: "nat list \<Rightarrow> buffer" where
  "sextets_to_bytes (a # b # c # d # vs) =
     [of_nat (a * 4 + b div 16), of_nat ((b mod 16) * 16 + c div 4), of_nat ((c mod 4) * 64 + d)]
     @ sextets_to_bytes vs"
| "sextets_to_bytes [a, b, c] =
     [of_nat (a * 4 + b div 16), of_nat ((b mod 16) * 16 + c div 4)]"
| "sextets_to_bytes [a, b] = [of_nat (a * 4 + b div 16)]"
| "sextets_to_bytes [a] = []"
| "sextets_to_bytes [] = []"

definition buffer_from_base64 :: "string \<Rightarrow> buffer" where
  "buffer_from_base64 path = sextets_to_bytes (b64_sextets path)"

section \<open>\<open>Number(portStr)\<close>\<close>

text \<open>
  A JavaScript number is a double. \<open>Fin q\<close> is the finite double whose value is \<open>q\<close>
  (the sign of zero is not kept: both zeros are falsy).
\<close>

datatype jsnum = NaN | PosInf | NegInf | Fin rat

definition pow2 :: "int \<Rightarrow> rat" where
  "pow2 k = (if 0 \<le> k then 2 ^ nat k else 1 / 2 ^ nat (- k))"

definition pow10 :: "int \<Rightarrow> rat" where
  "pow10 k = (if 0 \<le> k then 10 ^ nat k else 1 / 10 ^ nat (- k))"

fun bit_length :: "nat \<Rightarrow> nat" where
  "bit_length n = (if n = 0 then 0 else Suc (bit_length (n div 2)))"

declare bit_length.simps [simp del]

text \<open>The exponent of a positive rational: the \<open>e\<close> with \<open>2 ^ e \<le> q < 2 ^ (e + 1)\<close>.\<close>

definition floor_log2 :: "rat \<Rightarrow> int" where
  "floor_log2 q =
     (case quotient_of q of
        (a, b) \<Rightarrow>
          (let k = int (bit_length (nat a)) - int (bit_length (nat b))
           in if pow2 k \<le> q then k else k - 1))"

definition round_half_even :: "rat \<Rightarrow> int" where
  "round_half_even q =
     (let f = \<lfloor>q\<rfloor>; r = q - of_int f
      in if r < 1 / 2 then f
         else if 1 / 2 < r then f + 1
         else if even f then f else f + 1)"

text \<open>
  Rounding a rational to the nearest double, ties to even: 53 significant bits, exponents
  from -1022 (below it the spacing stays \<open>2 ^ -1074\<close>), infinity from \<open>2 ^ 1024\<close> on.
\<close>

definition to_double :: "rat \<Rightarrow> jsnum" where
  "to_double q =
     (if q = 0 then Fin 0
      else
        (let a = \<bar>q\<bar>;
             e = max (floor_log2 a) (- 1022);
             ulp = pow2 (e - 52);
             r = of_int (round_half_even (a / ulp)) * ulp
         in if pow2 1024 \<le> r then (if q < 0 then NegInf else PosInf)
            else Fin (if q < 0 then - r else r)))"

text \<open>
  \<open>StringToNumber\<close>: white space and line terminators are trimmed from both ends; the
  empty string is 0; \<open>0x\<close>, \<open>0o\<close> and \<open>0b\<close> start an unsigned integer in that radix;
  otherwise an optional sign, then \<open>Infinity\<close> or a decimal literal (digits with an
  optional fraction, or a fraction alone, and an optional exponent); anything else is NaN.
\<close>

definition is_js_whitespace :: "nat \<Rightarrow> bool" where
  "is_js_whitespace c =
     (c \<in> {0x09, 0x0A, 0x0B, 0x0C, 0x0D, 0x20, 0xA0, 0x1680, 0x2028, 0x2029, 0x202F,
            0x205F, 0x3000, 0xFEFF}
      \<or> (0x2000 \<le> c \<and> c \<le> 0x200A))"

definition trim_ws :: "nat list \<Rightarrow> nat list" where
  "trim_ws s = rev (dropWhile is_js_whitespace (rev (dropWhile is_js_whitespace s)))"

definition is_digit :: "nat \<Rightarrow> bool" where
  "is_digit c = (48 \<le> c \<and> c \<le> 57)"

text \<open>The value of a digit in a radix up to 16, \<open>None\<close> when it is not one.\<close>

definition digit_value :: "nat \<Rightarrow> nat \<Rightarrow> nat option" where
  "digit_value radix c =
     (let v = (if 48 \<le> c \<and> c \<le> 57 then c - 48
               else if 97 \<le> c \<and> c \<le> 102 then c - 97 + 10
               else if 65 \<le> c \<and> c \<le> 70 then c - 65 + 10
               else 16)
      in if v < radix then Some v else None)"

definition radix_value :: "nat \<Rightarrow> nat list \<Rightarrow> nat" where
  "radix_value radix ds =
     foldl (\<lambda>acc c. acc * radix + (case digit_value radix c of Some v \<Rightarrow> v | None \<Rightarrow> 0))
       0 ds"

definition radix_literal :: "nat \<Rightarrow> nat list \<Rightarrow> jsnum" where
  "radix_literal radix ds =
     (if ds \<noteq> [] \<and> list_all (\<lambda>c. digit_value radix c \<noteq> None) ds
      then to_double (of_nat (radix_value radix ds))
      else NaN)"

definition parse_exponent :: "nat list \<Rightarrow> int option" where
  "parse_exponent s =
     (case s of
        [] \<Rightarrow> Some 0
      | c # r \<Rightarrow>
          if c = 0x65 \<or> c = 0x45 then
            (let neg = (r \<noteq> [] \<and> hd r = 0x2D);
                 ds = (if r \<noteq> [] \<and> (hd r = 0x2B \<or> hd r = 0x2D) then tl r else r)
             in if ds \<noteq> [] \<and> list_all is_digit ds
                then Some (if neg then - int (radix_value 10 ds) else int (radix_value 10 ds))
                else None)
          else None)"

definition parse_decimal :: "nat list \<Rightarrow> rat option" where
  "parse_decimal s =
     (let ip = takeWhile is_digit s;
          r1 = dropWhile is_digit s;
          has_dot = (r1 \<noteq> [] \<and> hd r1 = 0x2E);
          fp = (if has_dot then takeWhile is_digit (tl r1) else []);
          r2 = (if has_dot then dropWhile is_digit (tl r1) else r1)
      in if ip = [] \<and> fp = [] then None
         else (case parse_exponent r2 of
                 None \<Rightarrow> None
               | Some e \<Rightarrow>
                   Some (of_nat (radix_value 10 (ip @ fp)) * pow10 (e - int (length fp)))))"

text \<open>The units of \<open>'Infinity'\<close>.\<close>

definition infinity_str :: "nat list" where
  "infinity_str = [0x49, 0x6E, 0x66, 0x69, 0x6E, 0x69, 0x74, 0x79]"

definition string_to_number :: "nat list \<Rightarrow> jsnum" where
  "string_to_number str =
     (let s = trim_ws str in
      if s = [] then Fin 0
      else if take 2 s = [0x30, 0x78] \<or> take 2 s = [0x30, 0x58] then radix_literal 16 (drop 2 s)
      else if take 2 s = [0x30, 0x6F] \<or> take 2 s = [0x30, 0x4F] then radix_literal 8 (drop 2 s)
      else if take 2 s = [0x30, 0x62] \<or> take 2 s = [0x30, 0x42] then radix_literal 2 (drop 2 s)
      else
        (let neg = (hd s = 0x2D);
             body = (if hd s = 0x2B \<or> hd s = 0x2D then tl s else s)
         in if body = infinity_str then (if neg then NegInf else PosInf)
            else (case parse_decimal body of
                    None \<Rightarrow> NaN
                  | Some q \<Rightarrow> to_double (if neg then - q else q))))"

text \<open>\<open>Number(x)\<close> for \<open>x\<close> a string or \<open>undefined\<close> (\<open>None\<close>).\<close>

fun js_number :: "jsstring option \<Rightarrow> jsnum" where
  "js_number None = NaN"
| "js_number (Some str) = string_to_number (map unat str)"

text \<open>\<open>!x\<close> for a number, and for a string or \<open>undefined\<close>.\<close>

fun not_number :: "jsnum \<Rightarrow> bool" where
  "not_number NaN = True"
| "not_number (Fin q) = (q = 0)"
| "not_number _ = False"

fun not_string :: "jsstring option \<Rightarrow> bool" where
  "not_string None = True"
| "not_string (Some str) = (str = [])"

section \<open>Address decoder: the head of the \<open>wss.on('connection')\<close> listener\<close>

text \<open>\<open>str.replace('/', '')\<close>: the first \<open>/\<close> is removed, wherever it stands.\<close>

fun replace_first :: "char \<Rightarrow> string \<Rightarrow> string" where
  "replace_first c [] = []"
| "replace_first c (x # xs) = (if x = c then xs else x # replace_first c xs)"

text \<open>\<open>req.url?.replace('/', '') || ''\<close>, with \<open>None\<close> for an undefined url.\<close>

fun url_path :: "string option \<Rightarrow> string" where
  "url_path None = []"
| "url_path (Some url) = replace_first CHR ''/'' url"

text \<open>
  The body of the \<open>try\<close>: \<open>Inl\<close> would be an exception, caught by the \<open>catch\<close>. Neither
  \<open>Buffer.from\<close> of a string nor \<open>toString\<close> throws, so the result is always \<open>Inr\<close>.
\<close>

definition try_decode :: "string \<Rightarrow> unit + jsstring" where
  "try_decode path = Inr (utf8_decode (buffer_from_base64 path))"

text \<open>An element of an array, \<open>undefined\<close> (\<open>None\<close>) past its end.\<close>

fun array_get :: "'a list \<Rightarrow> nat \<Rightarrow> 'a option" where
  "array_get [] i = None"
| "array_get (x # xs) 0 = Some x"
| "array_get (x # xs) (Suc i) = array_get xs i"

text \<open>
  What the listener does with the handshake: \<open>ws.close(code, reason); return\<close>, or it
  goes on to \<open>net.connect({host, port})\<close> and creates the Session.
\<close>

datatype decision = Reject nat string | Connect jsstring jsnum

text \<open>Lines 46-48: \<open>host\<close> is never \<open>undefined\<close>, as \<open>split\<close> returns at least one piece.\<close>

definition decide :: "string \<Rightarrow> jsstring \<Rightarrow> decision" where
  "decide reason decoded =
     (let parts = js_split 0x3A decoded;
          host = array_get parts 0;
          portStr = array_get parts 1;
          port = js_number portStr
      in if not_string host \<or> not_number port then Reject 1008 reason
         else (case host of Some h \<Rightarrow> Connect h port | None \<Rightarrow> Reject 1008 reason))"

text \<open>\<open>src/unnamed/part_000\<close>, lines 41-48.\<close>

definition wss_on_connection :: "string option \<Rightarrow> decision" where
  "wss_on_connection url =
     (case try_decode (url_path url) of
        Inl _ \<Rightarrow> Reject 1008 ''bad base64''
      | Inr decoded \<Rightarrow> decide ''need host:port'' decoded)"

text \<open>\<open>src/server.js\<close>, lines 39-52.\<close>

definition wss_on_connection_raw :: "string option \<Rightarrow> decision" where
  "wss_on_connection_raw url =
     (case try_decode (url_path url) of
        Inl _ \<Rightarrow> Reject 1008 ''Bad base64 in URL''
      | Inr decoded \<Rightarrow> decide ''URL must encode host:port'' decoded)"

section \<open>The client's side of the address token\<close>

text \<open>
  Modelled from the spec: the encoder of section 6, which is the client's and not in the
  repository. The token is the standard base64 encoding (alphabet \<open>A-Z a-z 0-9 + /\<close>,
  padding \<open>=\<close>) of the UTF-8 octets of \<open>host:port\<close>; the usage note of
  \<open>src/server.js\<close> builds it with \<open>btoa\<close> and connects to \<open>/<token>\<close>.
\<close>

definition b64_char :: "nat \<Rightarrow> char" where
  "b64_char n =
     (if n < 26 then char_of (65 + n)
      else if n < 52 then char_of (97 + (n - 26))
      else if n < 62 then char_of (48 + (n - 52))
      else if n = 62 then CHR ''+''
      else CHR ''/'')"

fun base64_encode_nat :: "nat list \<Rightarrow> string" where
  "base64_encode_nat (a # b # c # bs) =
     [b64_char (a div 4), b64_char ((a mod 4) * 16 + b div 16),
      b64_char ((b mod 16) * 4 + c div 64), b64_char (c mod 64)]
     @ base64_encode_nat bs"
| "base64_encode_nat [a, b] =
     [b64_char (a div 4), b64_char ((a mod 4) * 16 + b div 16), b64_char ((b mod 16) * 4),
      CHR ''='']"
| "base64_encode_nat [a] = [b64_char (a div 4), b64_char ((a mod 4) * 16), CHR ''='', CHR ''='']"
| "base64_encode_nat [] = []"

definition base64_encode :: "buffer \<Rightarrow> string" where
  "base64_encode bs = base64_encode_nat (map unat bs)"

text \<open>The url the client connects to for \<open>host:port\<close>, the port written in digits.\<close>

definition token_url :: "jsstring \<Rightarrow> jsstring \<Rightarrow> string option" where
  "token_url host digits =
     Some (CHR ''/'' # base64_encode (utf8_encode (host @ 0x3A # digits)))"

text \<open>
  A string that is well-formed UTF-16: every high surrogate is followed by a low one, and
  no low surrogate stands alone. Only such a string has a UTF-8 encoding that decodes to
  itself.
\<close>

fun well_formed_utf16 :: "jsstring \<Rightarrow> bool" where
  "well_formed_utf16 [] = True"
| "well_formed_utf16 [u] = (\<not> is_high_surrogate (unat u) \<and> \<not> is_low_surrogate (unat u))"
| "well_formed_utf16 (u # v # us) =
     (if is_high_surrogate (unat u) then is_low_surrogate (unat v) \<and> well_formed_utf16 us
      else \<not> is_low_surrogate (unat u) \<and> well_formed_utf16 (v # us))"

text \<open>A port written in decimal digits, and the number it denotes.\<close>

definition decimal_digits :: "jsstring \<Rightarrow> bool" where
  "decimal_digits ds = (ds \<noteq> [] \<and> list_all (\<lambda>u. is_digit (unat u)) ds)"

definition decimal_value :: "jsstring \<Rightarrow> nat" where
  "decimal_value ds = radix_value 10 (map unat ds)"

section \<open>Actions a listener performs on the two connections\<close>

text \<open>\<open>ws.readyState\<close> as a listener can observe it once the handshake is done.\<close>

datatype ready_state = OPEN | CLOSING | CLOSED

datatype action =
    WsSendText jsstring
  | WsSendBinary buffer
  | WsPing
  | WsClose
  | TcpWrite buffer
  | TcpDestroy
  | ClearInterval

section \<open>Frame reassembler: the \<open>tcp.on('data')\<close> and \<open>tcp.on('end')\<close> listeners\<close>

text \<open>
  \<open>src/unnamed/part_000\<close>, lines 58-69. The listener reads \<open>ws.readyState\<close> and the
  variable \<open>rest\<close>, and returns the new \<open>rest\<close> with the frames it sends.
  \<open>msgs.pop()\<close> takes the last piece; \<open>split\<close> never returns an empty array, so the
  \<open>undefined\<close> that \<open>pop\<close> gives on one cannot arise (the model leaves \<open>rest\<close> empty
  there).
\<close>

definition array_pop :: "'a list \<Rightarrow> 'a option \<times> 'a list" where
  "array_pop xs = (if xs = [] then (None, []) else (Some (last xs), butlast xs))"

definition emit :: "ready_state \<Rightarrow> jsstring \<Rightarrow> action list" where
  "emit ready m =
     (if m = [] then []
      else if ready = OPEN then [WsSendText m]
      else [])"

definition tcp_on_data :: "ready_state \<Rightarrow> jsstring \<Rightarrow> buffer \<Rightarrow> jsstring \<times> action list" where
  "tcp_on_data ready rest chunk =
     (let str = rest @ utf8_decode chunk;
          (popped, msgs) = array_pop (js_split 0x0A str);
          rest' = (case popped of Some r \<Rightarrow> r | None \<Rightarrow> [])
      in (rest', concat (map (emit ready) msgs)))"

definition tcp_on_end :: "ready_state \<Rightarrow> jsstring \<Rightarrow> action list" where
  "tcp_on_end ready rest = (if rest \<noteq> [] \<and> ready = OPEN then [WsSendText rest] else [])"

text \<open>
  The raw-forwarding variant (\<open>src/server.js\<close>, lines 67-69) sends each chunk as it
  came, as a binary frame, and has no \<open>'end'\<close> listener.
\<close>

definition tcp_on_data_raw :: "ready_state \<Rightarrow> buffer \<Rightarrow> action list" where
  "tcp_on_data_raw ready chunk = (if ready = OPEN then [WsSendBinary chunk] else [])"

text \<open>
  Feeding a sequence of chunks to the reassembler, each with the \<open>readyState\<close> of the
  client connection at the time it arrives: the final \<open>rest\<close> and the frames sent at
  each chunk.
\<close>

fun feed :: "jsstring \<Rightarrow> (ready_state \<times> buffer) list \<Rightarrow> jsstring \<times> action list list" where
  "feed rest [] = (rest, [])"
| "feed rest ((ready, chunk) # cs) =
     (case tcp_on_data ready rest chunk of
        (rest', out) \<Rightarrow> (case feed rest' cs of (r, outs) \<Rightarrow> (r, out # outs)))"

section \<open>Outbound framer: the \<open>ws.on('message')\<close> listener\<close>

text \<open>\<open>Buffer.isBuffer(data) ? data : Buffer.from(data)\<close>\<close>

fun to_buffer :: "ws_data \<Rightarrow> buffer" where
  "to_buffer (BufferData b) = b"
| "to_buffer (StringData s) = utf8_encode s"

text \<open>
  \<open>buf.slice(-1)\<close>: the last octet as a buffer of length one, the empty buffer when
  \<open>buf\<close> is empty. \<open>b[0]\<close> on an empty buffer is \<open>undefined\<close>, here \<open>None\<close>.
\<close>

definition slice_last :: "buffer \<Rightarrow> buffer" where
  "slice_last buf = drop (length buf - 1) buf"

fun index0 :: "buffer \<Rightarrow> byte option" where
  "index0 [] = None"
| "index0 (b # _) = Some b"

text \<open>The string \<open>'\n'\<close>.\<close>

definition newline_str :: jsstring where
  "newline_str = [0x0A]"

text \<open>
  The octets passed to \<open>tcp.write\<close> by the re-segmenting variant
  (\<open>src/unnamed/part_000\<close>, lines 72-77).
\<close>

definition ws_on_message :: "ws_data \<Rightarrow> buffer" where
  "ws_on_message data =
     (let buf = to_buffer data
      in if index0 (slice_last buf) = Some 0x0A then buf
         else concat [buf, utf8_encode newline_str])"

text \<open>The same listener of the raw-forwarding variant (\<open>src/server.js\<close>, lines 61-64).\<close>

definition ws_on_message_raw :: "ws_data \<Rightarrow> buffer" where
  "ws_on_message_raw data =
     (let buf = to_buffer data
      in if index0 (slice_last buf) = Some 0x0A then buf
         else concat [buf, utf8_encode newline_str])"

text \<open>
  The claim's reading of "ends with exactly one delimiter": the last octet is 0x0A and
  the octet before it, if there is one, is not.
\<close>

definition ends_with_one_newline :: "buffer \<Rightarrow> bool" where
  "ends_with_one_newline bs =
     (case rev bs of [] \<Rightarrow> False
      | [x] \<Rightarrow> x = 0x0A
      | x # y # _ \<Rightarrow> x = 0x0A \<and> y \<noteq> 0x0A)"

definition ends_with_two_newlines :: "buffer \<Rightarrow> bool" where
  "ends_with_two_newlines bs =
     (case rev bs of x # y # _ \<Rightarrow> x = 0x0A \<and> y = 0x0A | _ \<Rightarrow> False)"

section \<open>Well-formed UTF-8 (RFC 3629, Unicode table 3-7)\<close>

text \<open>
  The octet sequences that encode Unicode scalar values: one octet below 0x80; a lead
  octet C2..DF, E0..EF or F0..F4 followed by one, two or three tail octets 80..BF, where
  the first tail octet is further restricted after E0, ED, F0 and F4 (no overlong forms,
  no surrogates, nothing above U+10FFFF).
\<close>

definition utf8_tail :: "nat \<Rightarrow> bool" where
  "utf8_tail b = in_range 0x80 0xBF b"

definition utf8_second :: "nat \<Rightarrow> nat \<Rightarrow> bool" where
  "utf8_second b1 b2 =
     (if b1 = 0xE0 then in_range 0xA0 0xBF b2
      else if b1 = 0xED then in_range 0x80 0x9F b2
      else if b1 = 0xF0 then in_range 0x90 0xBF b2
      else if b1 = 0xF4 then in_range 0x80 0x8F b2
      else in_range 0x80 0xBF b2)"

fun well_formed_utf8 :: "buffer \<Rightarrow> bool" where
  "well_formed_utf8 [] = True"
| "well_formed_utf8 (b1 # bs) =
     (if unat b1 < 0x80 then well_formed_utf8 bs
      else if in_range 0xC2 0xDF (unat b1) then
        (case bs of
           b2 # r \<Rightarrow> utf8_tail (unat b2) \<and> well_formed_utf8 r
         | _ \<Rightarrow> False)
      else if in_range 0xE0 0xEF (unat b1) then
        (case bs of
           b2 # b3 # r \<Rightarrow>
             utf8_second (unat b1) (unat b2) \<and> utf8_tail (unat b3) \<and> well_formed_utf8 r
         | _ \<Rightarrow> False)
      else if in_range 0xF0 0xF4 (unat b1) then
        (case bs of
           b2 # b3 # b4 # r \<Rightarrow>
             utf8_second (unat b1) (unat b2) \<and> utf8_tail (unat b3) \<and> utf8_tail (unat b4)
             \<and> well_formed_utf8 r
         | _ \<Rightarrow> False)
      else False)"

text \<open>A Unicode scalar value: a code point that is not a surrogate.\<close>

definition scalar_value :: "nat \<Rightarrow> bool" where
  "scalar_value cp = (cp < 0x110000 \<and> \<not> (0xD800 \<le> cp \<and> cp < 0xE000))"

text \<open>
  What the proofs need to know of one well-formed character with octets \<open>w\<close> and code
  point \<open>cp\<close>: the encoder gives \<open>w\<close> back, the decoder reads \<open>w\<close> as \<open>cp\<close> whatever
  follows, and the delimiter occurs in it only as the character \<open>\n\<close> itself.
\<close>

definition char_facts :: "buffer \<Rightarrow> nat \<Rightarrow> bool" where
  "char_facts w cp =
     (w \<noteq> [] \<and> scalar_value cp \<and> utf8_bytes cp = w
      \<and> (\<forall>t. utf8_decode (w @ t) = utf16_units cp @ utf8_decode t)
      \<and> (\<forall>t. well_formed_utf8 (w @ t) = well_formed_utf8 t)
      \<and> (0x0A \<in> set w) = (w = [0x0A])
      \<and> (if w = [0x0A] then utf16_units cp = [0x0A] else 0x0A \<notin> set (utf16_units cp)))"

section \<open>What the client receives\<close>

text \<open>
  The payload octets of a frame sent to the client: the UTF-8 encoding of a text frame,
  the octets of a binary frame.
\<close>

definition frame_payload :: "action \<Rightarrow> buffer" where
  "frame_payload a =
     (case a of WsSendText m \<Rightarrow> utf8_encode m | WsSendBinary b \<Rightarrow> b | _ \<Rightarrow> [])"

text \<open>
  The octets of a sequence of chunks, the text the listener sees in it (each chunk decoded
  by itself), and the same chunks all arriving while the client is open.
\<close>

definition chunk_stream :: "(ready_state \<times> buffer) list \<Rightarrow> buffer" where
  "chunk_stream cs = concat (map snd cs)"

definition decoded_stream :: "(ready_state \<times> buffer) list \<Rightarrow> jsstring" where
  "decoded_stream cs = concat (map (\<lambda>c. utf8_decode (snd c)) cs)"

definition all_open :: "(ready_state \<times> buffer) list \<Rightarrow> (ready_state \<times> buffer) list" where
  "all_open cs = map (\<lambda>c. (OPEN, snd c)) cs"

section \<open>The Session: listeners wired by \<open>wss.on('connection')\<close>\<close>

text \<open>
  The variables the closures of one connection share, with what the runtime keeps for
  them: \<open>rest\<close>; \<open>ws.readyState\<close>; whether the connect callback of \<open>net.connect\<close>
  has run; whether the socket \<open>tcp\<close> has been destroyed; whether the interval \<open>ka\<close> is
  set and not yet cleared. The code keeps no lifecycle variable of its own.
\<close>

record session =
  rest :: jsstring
  ws_ready :: ready_state
  tcp_connected :: bool
  tcp_destroyed :: bool
  ka_active :: bool

text \<open>
  The state when the connection listener returns (lines 53-92 have run): \<open>rest = ''\<close>,
  the client is open, \<open>net.connect\<close> is in flight, and \<open>setInterval\<close> has been called.
\<close>

definition new_session :: session where
  "new_session =
     \<lparr>rest = [], ws_ready = OPEN, tcp_connected = False, tcp_destroyed = False,
      ka_active = True\<rparr>"

text \<open>
  \<open>closeAll\<close> (lines 80-84): \<open>tcp.destroy()\<close> every time, \<open>ws.close()\<close> when the
  client is open. \<open>destroy\<close> marks the socket destroyed; \<open>close\<close> on an open
  WebSocket moves it to CLOSING at once.
\<close>

definition closeAll :: "session \<Rightarrow> session \<times> action list" where
  "closeAll s =
     (if ws_ready s = OPEN
      then (s\<lparr>tcp_destroyed := True, ws_ready := CLOSING\<rparr>, [TcpDestroy, WsClose])
      else (s\<lparr>tcp_destroyed := True\<rparr>, [TcpDestroy]))"

text \<open>\<open>shutdown\<close>, the same handler in \<open>src/server.js\<close> (lines 72-76).\<close>

definition shutdown :: "session \<Rightarrow> session \<times> action list" where
  "shutdown s =
     (if ws_ready s = OPEN
      then (s\<lparr>tcp_destroyed := True, ws_ready := CLOSING\<rparr>, [TcpDestroy, WsClose])
      else (s\<lparr>tcp_destroyed := True\<rparr>, [TcpDestroy]))"

text \<open>
  The events of one Session. \<open>PeerClosing\<close> is not a listener: it is the library moving
  the client connection from OPEN to CLOSING by itself (a close frame arrived, or the
  connection failed) before any listener runs.
\<close>

datatype event =
    TcpConnected
  | TcpData buffer
  | TcpEnd
  | WsMessage ws_data
  | WsCloseEvent
  | WsErrorEvent
  | TcpCloseEvent
  | TcpErrorEvent
  | Tick
  | PeerClosing

text \<open>
  One event: the new state and the calls made on the two connections. The library sets
  \<open>readyState\<close> to CLOSED just before it emits \<open>'close'\<close>, whose two listeners run in
  the order they were added (line 85, then line 92); a socket is destroyed by the time
  its \<open>'close'\<close> is emitted; a cleared interval does not fire.
\<close>

fun step :: "session \<Rightarrow> event \<Rightarrow> session \<times> action list" where
  "step s TcpConnected = (s\<lparr>tcp_connected := True\<rparr>, [])"
| "step s (TcpData chunk) =
     (case tcp_on_data (ws_ready s) (rest s) chunk of
        (rest', out) \<Rightarrow> (s\<lparr>rest := rest'\<rparr>, out))"
| "step s TcpEnd = (s, tcp_on_end (ws_ready s) (rest s))"
| "step s (WsMessage data) = (s, [TcpWrite (ws_on_message data)])"
| "step s WsCloseEvent =
     (case closeAll (s\<lparr>ws_ready := CLOSED\<rparr>) of
        (s', out) \<Rightarrow> (s'\<lparr>ka_active := False\<rparr>, out @ [ClearInterval]))"
| "step s WsErrorEvent = closeAll s"
| "step s TcpCloseEvent = closeAll (s\<lparr>tcp_destroyed := True\<rparr>)"
| "step s TcpErrorEvent = closeAll s"
| "step s Tick = (if ka_active s then (s, [WsPing]) else (s, []))"
| "step s PeerClosing =
     (if ws_ready s = OPEN then (s\<lparr>ws_ready := CLOSING\<rparr>, []) else (s, []))"

fun run :: "session \<Rightarrow> event list \<Rightarrow> session \<times> action list" where
  "run s [] = (s, [])"
| "run s (e # es) =
     (case step s e of (s', out) \<Rightarrow> (case run s' es of (s'', outs) \<Rightarrow> (s'', out @ outs)))"

text \<open>The four teardown triggers.\<close>

datatype trigger = ClientClose | ClientError | BackendClose | BackendError

fun trigger_event :: "trigger \<Rightarrow> event" where
  "trigger_event ClientClose = WsCloseEvent"
| "trigger_event ClientError = WsErrorEvent"
| "trigger_event BackendClose = TcpCloseEvent"
| "trigger_event BackendError = TcpErrorEvent"

text \<open>
  Modelled from the spec: the lifecycle state of section 4.5, which the code does not
  store. \<open>closed\<close> is both handles released; \<open>closing\<close> is teardown begun on either
  side; \<open>active\<close> is both sides open with the backend connected; \<open>connecting\<close> is the
  backend connect still in flight.
\<close>

datatype lifecycle = Connecting | Active | Closing | Closed

definition lifecycle_of :: "session \<Rightarrow> lifecycle" where
  "lifecycle_of s =
     (if ws_ready s = CLOSED \<and> tcp_destroyed s then Closed
      else if ws_ready s \<noteq> OPEN \<or> tcp_destroyed s then Closing
      else if tcp_connected s then Active
      else Connecting)"

text \<open>
  The action \<open>WsPing\<close> is the call \<open>ws.ping()\<close> of the interval callback (line 91).
  The \<open>ws\<close> library is a dependency, not part of the repository: its \<open>ping\<close> writes
  a ping frame only on a connection whose \<open>readyState\<close> is \<open>OPEN\<close> and writes nothing
  on a closing or closed one. \<open>probe_sent s e\<close>: event \<open>e\<close>, arriving in state \<open>s\<close>,
  puts a probe signal on the wire to the client.
\<close>

definition probe_sent :: "session \<Rightarrow> event \<Rightarrow> bool" where
  "probe_sent s e = (WsPing \<in> set (snd (step s e)) \<and> ws_ready s = OPEN)"

section \<open>Facts about the framer\<close>

lemma utf8_encode_newline_str: "utf8_encode newline_str = [0x0A]"
  by (simp add: newline_str_def is_high_surrogate_def is_low_surrogate_def utf8_bytes_def)

lemma index0_slice_last:
  "index0 (slice_last buf) = (if buf = [] then None else Some (last buf))"
proof (cases buf rule: rev_cases)
  case Nil
  then show ?thesis by (simp add: slice_last_def)
next
  case (snoc ys y)
  then show ?thesis by (simp add: slice_last_def)
qed

lemma ws_on_message_eq:
  "ws_on_message data =
     (if to_buffer data \<noteq> [] \<and> last (to_buffer data) = 0x0A then to_buffer data
      else to_buffer data @ [0x0A])"
  by (simp add: ws_on_message_def Let_def index0_slice_last utf8_encode_newline_str)

text \<open>
  Claim C2, as the code has it. The octets written to the backend are the payload itself
  when its last octet is the delimiter, and the payload with one delimiter appended
  otherwise; they are never empty and always end with the delimiter; the empty message
  is written as the single delimiter. The written octets end with exactly one delimiter
  precisely when the payload does not already end with two of them: such a payload is
  passed on unchanged.
\<close>

theorem framer_output:
  "ws_on_message data =
     (if to_buffer data \<noteq> [] \<and> last (to_buffer data) = 0x0A then to_buffer data
      else to_buffer data @ [0x0A])
   \<and> ws_on_message data \<noteq> [] \<and> last (ws_on_message data) = 0x0A
   \<and> ws_on_message (BufferData []) = [0x0A]
   \<and> ends_with_one_newline (ws_on_message data) = (\<not> ends_with_two_newlines (to_buffer data))"
proof -
  let ?b = "to_buffer data"
  have eq: "ws_on_message data = (if ?b \<noteq> [] \<and> last ?b = 0x0A then ?b else ?b @ [0x0A])"
    by (rule ws_on_message_eq)
  have e: "ws_on_message (BufferData []) = [0x0A]"
    by (simp add: ws_on_message_eq)
  have one: "ends_with_one_newline (ws_on_message data) = (\<not> ends_with_two_newlines ?b)"
  proof (cases ?b rule: rev_cases)
    case Nil
    then show ?thesis
      by (simp add: eq ends_with_one_newline_def ends_with_two_newlines_def)
  next
    case (snoc ys y)
    then show ?thesis
      by (cases ys rule: rev_cases)
        (auto simp: eq ends_with_one_newline_def ends_with_two_newlines_def)
  qed
  from eq e one show ?thesis by auto
qed

text \<open>
  Claim C2 as stated fails: the client message \<open>"a\n\n"\<close> already ends with the
  delimiter, so it is written unchanged, and what is written ends with two delimiters.
\<close>

theorem framer_double_newline_counterexample:
  "ws_on_message (BufferData [0x61, 0x0A, 0x0A]) = [0x61, 0x0A, 0x0A]
   \<and> \<not> ends_with_one_newline (ws_on_message (BufferData [0x61, 0x0A, 0x0A]))"
  by (simp add: ws_on_message_eq ends_with_one_newline_def)

section \<open>Facts about splitting\<close>

lemma js_split_nonempty: "js_split sep xs \<noteq> []"
  by (induction xs) (auto split: list.splits)

lemma last_js_split_no_sep: "sep \<notin> set (last (js_split sep xs))"
proof (induction xs)
  case Nil
  then show ?case by simp
next
  case (Cons x xs)
  obtain p ps where ps: "js_split sep xs = p # ps"
    using js_split_nonempty [of sep xs] by (cases "js_split sep xs") auto
  with Cons show ?case by (cases ps) auto
qed

lemma js_split_parts_no_sep: "p \<in> set (js_split sep xs) \<Longrightarrow> sep \<notin> set p"
proof (induction xs arbitrary: p)
  case Nil
  then show ?case by simp
next
  case (Cons x xs)
  then show ?case by (auto split: if_splits list.splits)
qed

lemma js_split_no_sep: "sep \<notin> set xs \<Longrightarrow> js_split sep xs = [xs]"
  by (induction xs) auto

lemma js_split_append_sep:
  "sep \<notin> set h \<Longrightarrow> js_split sep (h @ sep # xs) = h # js_split sep xs"
  by (induction h) auto

lemma tcp_on_data_rest:
  "fst (tcp_on_data ready tail chunk) = last (js_split 0x0A (tail @ utf8_decode chunk))"
  by (simp add: tcp_on_data_def array_pop_def Let_def js_split_nonempty)

lemma fst_feed_Cons:
  "fst (feed r ((ready, chunk) # cs)) = fst (feed (fst (tcp_on_data ready r chunk)) cs)"
  by (simp split: prod.splits)

section \<open>Facts about the stream of segments\<close>

lemma js_split_Cons_no_sep:
  "x \<noteq> sep \<Longrightarrow> js_split sep (x # xs) = (x # hd (js_split sep xs)) # tl (js_split sep xs)"
  using js_split_nonempty [of sep xs] by (cases "js_split sep xs") auto

lemma js_split_append:
  "js_split sep (xs @ ys) =
     butlast (js_split sep xs) @ js_split sep (last (js_split sep xs) @ ys)"
proof (induction xs)
  case Nil
  then show ?case by simp
next
  case (Cons x xs)
  obtain p ps where ps: "js_split sep xs = p # ps"
    using js_split_nonempty [of sep xs] by (cases "js_split sep xs") auto
  show ?case
  proof (cases "x = sep")
    case True
    with Cons ps show ?thesis by simp
  next
    case False
    show ?thesis
    proof (cases ps)
      case Nil
      with Cons ps False show ?thesis by simp
    next
      case (Cons q qs)
      with Cons.IH ps False show ?thesis by simp
    qed
  qed
qed

lemma butlast_js_split_append:
  "butlast (js_split sep (xs @ ys)) =
     butlast (js_split sep xs) @ butlast (js_split sep (last (js_split sep xs) @ ys))"
  by (subst js_split_append) (simp add: butlast_append js_split_nonempty)

lemma last_js_split_append:
  "last (js_split sep (xs @ ys)) = last (js_split sep (last (js_split sep xs) @ ys))"
  by (subst js_split_append) (simp add: js_split_nonempty)

lemma emit_all: "concat (map (emit ready) ms) =
   (if ready = OPEN then map WsSendText (filter (\<lambda>m. m \<noteq> []) ms) else [])"
  by (induction ms) (auto simp: emit_def)

lemma tcp_on_data_eq:
  "tcp_on_data ready tail chunk =
     (last (js_split 0x0A (tail @ utf8_decode chunk)),
      if ready = OPEN
      then map WsSendText (filter (\<lambda>m. m \<noteq> []) (butlast (js_split 0x0A (tail @ utf8_decode chunk))))
      else [])"
  by (simp add: tcp_on_data_def array_pop_def Let_def js_split_nonempty emit_all)

lemma feed_rest:
  "0x0A \<notin> set tail \<Longrightarrow> fst (feed tail cs) = last (js_split 0x0A (tail @ decoded_stream cs))"
proof (induction cs arbitrary: tail)
  case Nil
  then show ?case by (simp add: decoded_stream_def js_split_no_sep)
next
  case (Cons c cs)
  obtain ready chunk where c: "c = (ready, chunk)" by (cases c)
  let ?t = "last (js_split 0x0A (tail @ utf8_decode chunk))"
  have t: "0x0A \<notin> set ?t" by (rule last_js_split_no_sep)
  have "fst (feed tail (c # cs)) = fst (feed ?t cs)"
    unfolding c fst_feed_Cons by (simp add: tcp_on_data_eq)
  also have "\<dots> = last (js_split 0x0A (?t @ decoded_stream cs))"
    by (rule Cons.IH [OF t])
  also have "\<dots> = last (js_split 0x0A ((tail @ utf8_decode chunk) @ decoded_stream cs))"
    by (rule last_js_split_append [symmetric])
  finally show ?case by (simp add: c decoded_stream_def)
qed

lemma snd_feed_Cons:
  "snd (feed r ((ready, chunk) # cs)) =
     snd (tcp_on_data ready r chunk) # snd (feed (fst (tcp_on_data ready r chunk)) cs)"
  by (simp split: prod.splits)

lemma decoded_stream_all_open: "decoded_stream (all_open cs) = decoded_stream cs"
  by (simp add: decoded_stream_def all_open_def comp_def)

lemma feed_open_frames:
  "0x0A \<notin> set tail \<Longrightarrow>
   concat (snd (feed tail (all_open cs))) =
     map WsSendText (filter (\<lambda>m. m \<noteq> []) (butlast (js_split 0x0A (tail @ decoded_stream cs))))"
proof (induction cs arbitrary: tail)
  case Nil
  then show ?case by (simp add: decoded_stream_def js_split_no_sep all_open_def)
next
  case (Cons c cs)
  obtain ready chunk where c: "c = (ready, chunk)" by (cases c)
  let ?t = "last (js_split 0x0A (tail @ utf8_decode chunk))"
  have t: "0x0A \<notin> set ?t" by (rule last_js_split_no_sep)
  have a: "all_open (c # cs) = (OPEN, chunk) # all_open cs" by (simp add: all_open_def c)
  have "butlast (js_split 0x0A ((tail @ utf8_decode chunk) @ decoded_stream cs)) =
     butlast (js_split 0x0A (tail @ utf8_decode chunk))
     @ butlast (js_split 0x0A (?t @ decoded_stream cs))"
    by (rule butlast_js_split_append)
  then show ?case
    unfolding a snd_feed_Cons
    by (simp add: tcp_on_data_eq Cons.IH [OF t] c decoded_stream_def)
qed

lemma all_open_Cons: "all_open ((ready, chunk) # cs) = (OPEN, chunk) # all_open cs"
  by (simp add: all_open_def)

lemma feed_flags:
  "fst (feed tail cs) = fst (feed tail (all_open cs))
   \<and> snd (feed tail cs) =
       map (\<lambda>(c, out). if fst c = OPEN then out else []) (zip cs (snd (feed tail (all_open cs))))"
proof (induction cs arbitrary: tail)
  case Nil
  then show ?case by (simp add: all_open_def)
next
  case (Cons c cs)
  obtain ready chunk where c: "c = (ready, chunk)" by (cases c)
  have f: "fst (tcp_on_data ready tail chunk) = fst (tcp_on_data OPEN tail chunk)"
    by (simp add: tcp_on_data_eq)
  have o: "snd (tcp_on_data ready tail chunk) =
      (if ready = OPEN then snd (tcp_on_data OPEN tail chunk) else [])"
    by (simp add: tcp_on_data_eq)
  from Cons.IH [of "fst (tcp_on_data OPEN tail chunk)"] show ?case
    by (simp add: c all_open_Cons fst_feed_Cons snd_feed_Cons f o del: feed.simps)
qed

section \<open>Facts about UTF-8\<close>

lemma h2:
  fixes a b :: nat
  assumes "b < 64"
  shows "(a * 64 + b) div 64 = a" and "(a * 64 + b) mod 64 = b"
  using assms by simp_all

lemma h3:
  fixes a b c :: nat
  assumes "b < 64" "c < 64"
  shows "(a * 4096 + b * 64 + c) div 4096 = a"
    and "((a * 4096 + b * 64 + c) div 64) mod 64 = b"
    and "(a * 4096 + b * 64 + c) mod 64 = c"
    and "(a * 4096 + b * 64 + c) div 64 = a * 64 + b"
proof -
  let ?x = "a * 4096 + b * 64 + c"
  have e: "?x = (a * 64 + b) * 64 + c" by simp
  show d: "?x div 64 = a * 64 + b"
    by (simp only: e h2 assms)
  show "?x mod 64 = c"
    by (simp only: e h2 assms)
  show "(?x div 64) mod 64 = b"
    by (simp only: d h2 assms)
  have "?x div 4096 = (?x div 64) div 64"
    by (simp add: div_mult2_eq)
  then show "?x div 4096 = a"
    by (simp only: d h2 assms)
qed

lemma h4:
  fixes a b c d :: nat
  assumes "b < 64" "c < 64" "d < 64"
  shows "(a * 262144 + b * 4096 + c * 64 + d) div 262144 = a"
    and "((a * 262144 + b * 4096 + c * 64 + d) div 4096) mod 64 = b"
    and "((a * 262144 + b * 4096 + c * 64 + d) div 64) mod 64 = c"
    and "(a * 262144 + b * 4096 + c * 64 + d) mod 64 = d"
proof -
  let ?x = "a * 262144 + b * 4096 + c * 64 + d"
  have e: "?x = (a * 4096 + b * 64 + c) * 64 + d" by simp
  have d: "?x div 64 = a * 4096 + b * 64 + c"
    by (simp only: e h2 assms)
  show "?x mod 64 = d"
    by (simp only: e h2 assms)
  show "(?x div 64) mod 64 = c"
    by (simp only: d h3 assms)
  have "?x div 4096 = (?x div 64) div 64" by (simp add: div_mult2_eq)
  then have d2: "?x div 4096 = a * 64 + b"
    by (simp only: d h3(4) [OF assms(1,2)])
  show "(?x div 4096) mod 64 = b"
    by (simp only: d2 h2 assms)
  have "?x div 262144 = (?x div 4096) div 64" by (simp add: div_mult2_eq)
  then show "?x div 262144 = a"
    by (simp only: d2 h2 assms)
qed


lemma byte_roundtrip: "of_nat (unat (b :: byte)) = b"
  by simp

lemma unat_byte_lt: "unat (b :: byte) < 256"
  using unsigned_less [of b] by simp

lemma unat_of_nat_unit16: "n < 65536 \<Longrightarrow> unat (of_nat n :: unit16) = n"
  by (simp add: unat_of_nat)

lemma unat_of_nat_byte: "n < 256 \<Longrightarrow> unat (of_nat n :: byte) = n"
  by (simp add: unat_of_nat)

lemma utf8_encode_bmp:
  assumes "cp < 0x10000" "\<not> (0xD800 \<le> cp \<and> cp < 0xE000)"
  shows "utf8_encode (of_nat cp # s) = utf8_bytes cp @ utf8_encode s"
  using assms
  by (cases s) (auto simp: unat_of_nat_unit16 is_high_surrogate_def is_low_surrogate_def)

lemma utf8_encode_pair:
  assumes "0x10000 \<le> cp" "cp < 0x110000"
  shows "utf8_encode (utf16_units cp @ s) = utf8_bytes cp @ utf8_encode s"
proof -
  define x where "x = cp - 0x10000"
  have x: "x < 1048576" "cp = x + 0x10000" using assms by (simp_all add: x_def)
  have d: "x div 1024 < 1024" using x(1) by simp
  have m: "x mod 1024 < 1024" by simp
  have hi: "unat (of_nat (0xD800 + x div 1024) :: unit16) = 0xD800 + x div 1024"
    using d by (intro unat_of_nat_unit16) simp
  have lo: "unat (of_nat (0xDC00 + x mod 1024) :: unit16) = 0xDC00 + x mod 1024"
    using m by (intro unat_of_nat_unit16) simp
  have p: "pair_code_point (0xD800 + x div 1024) (0xDC00 + x mod 1024) = cp"
    by (simp add: pair_code_point_def x(2))
  have u: "utf16_units cp = [of_nat (0xD800 + x div 1024), of_nat (0xDC00 + x mod 1024)]"
    using assms by (simp add: utf16_units_def x_def)
  show ?thesis
    unfolding u using d m
    by (simp only: append_Cons append_Nil utf8_encode.simps hi lo p is_high_surrogate_def
        is_low_surrogate_def) simp
qed

lemma utf8_encode_units:
  assumes "scalar_value cp"
  shows "utf8_encode (utf16_units cp @ s) = utf8_bytes cp @ utf8_encode s"
proof (cases "cp < 0x10000")
  case True
  with assms utf8_encode_bmp [of cp s] show ?thesis
    by (simp add: scalar_value_def utf16_units_def)
next
  case False
  with assms utf8_encode_pair [of cp s] show ?thesis
    by (simp add: scalar_value_def)
qed


text \<open>One well-formed character: its octets \<open>w\<close> and its code point.\<close>

lemma unit_eq_newline:
  assumes "n < 65536"
  shows "((of_nat n :: unit16) = 0x0A) = (n = 10)"
proof
  assume "(of_nat n :: unit16) = 0x0A"
  then have "unat (of_nat n :: unit16) = unat (0x0A :: unit16)" by simp
  then show "n = 10" using assms by (simp add: unat_of_nat_unit16)
next
  assume "n = 10"
  then show "(of_nat n :: unit16) = 0x0A" by simp
qed

lemma byte_eq_newline: "((b :: byte) = 0x0A) = (unat b = 10)"
proof
  assume "b = 0x0A"
  then show "unat b = 10" by simp
next
  assume "unat b = 10"
  then have "of_nat (unat b) = (of_nat 10 :: byte)" by simp
  then show "b = 0x0A" by simp
qed

lemma char1:
  assumes "unat b1 < 0x80"
  shows "char_facts [b1] (unat b1)"
proof -
  have n: "((of_nat (unat b1) :: unit16) = 0x0A) = (unat b1 = 10)"
    using assms by (intro unit_eq_newline) simp
  have s: "scalar_value (unat b1)" using assms by (simp add: scalar_value_def)
  have b: "utf8_bytes (unat b1) = [b1]" using assms by (simp add: utf8_bytes_def)
  have d: "utf8_decode ([b1] @ t) = utf16_units (unat b1) @ utf8_decode t" for t
    using assms by simp
  have w: "well_formed_utf8 ([b1] @ t) = well_formed_utf8 t" for t
    using assms by simp
  have m: "(0x0A \<in> set [b1]) = ([b1] = [0x0A])" by auto
  have m': "if [b1] = [0x0A] then utf16_units (unat b1) = [0x0A]
            else 0x0A \<notin> set (utf16_units (unat b1))"
    using assms n by (auto simp add: utf16_units_def byte_eq_newline)
  show ?thesis
    unfolding char_facts_def using s b d w m m' by blast
qed


lemma char2:
  assumes "in_range 0xC2 0xDF (unat b1)" "utf8_tail (unat b2)"
  shows "char_facts [b1, b2] ((unat b1 - 0xC0) * 64 + (unat b2 - 0x80))"
proof -
  define a where "a = unat b1 - 0xC0"
  define b where "b = unat b2 - 0x80"
  define cp where "cp = a * 64 + b"
  have a: "2 \<le> a" "a \<le> 31" "0xC0 + a = unat b1"
    using assms(1) by (auto simp add: a_def in_range_def)
  have b: "b < 64" "0x80 + b = unat b2"
    using assms(2) by (auto simp add: b_def utf8_tail_def in_range_def)
  have cp: "128 \<le> cp" "cp < 2048" using a b by (simp_all add: cp_def)
  have dm: "cp div 64 = a" "cp mod 64 = b"
    unfolding cp_def using h2 [OF b(1)] by simp_all
  have s: "scalar_value cp" using cp by (simp add: scalar_value_def)
  have "utf8_bytes cp = [of_nat (0xC0 + cp div 64), of_nat (0x80 + cp mod 64)]"
    using cp by (simp add: utf8_bytes_def)
  also have "\<dots> = [b1, b2]"
    by (simp only: dm a b) simp
  finally have bts: "utf8_bytes cp = [b1, b2]" .
  have d: "utf8_decode ([b1, b2] @ t) = utf16_units cp @ utf8_decode t" for t
    using assms by (simp add: in_range_def utf8_tail_def cp_def a_def b_def)
  have w: "well_formed_utf8 ([b1, b2] @ t) = well_formed_utf8 t" for t
    using assms by (simp add: in_range_def)
  have m: "(0x0A \<in> set [b1, b2]) = ([b1, b2] = [0x0A])"
    using assms by (auto simp: byte_eq_newline in_range_def utf8_tail_def)
  have "(of_nat cp :: unit16) \<noteq> 0x0A"
    using cp unit_eq_newline [of cp] by simp
  then have m': "if [b1, b2] = [0x0A] then utf16_units cp = [0x0A]
            else 0x0A \<notin> set (utf16_units cp)"
    using cp by (simp add: utf16_units_def)
  show ?thesis
    unfolding char_facts_def cp_def [symmetric] a_def [symmetric] b_def [symmetric]
    using s bts d w m m' by blast
qed


lemma char3:
  assumes "in_range 0xE0 0xEF (unat b1)" "utf8_second (unat b1) (unat b2)"
    "utf8_tail (unat b3)"
  shows "char_facts [b1, b2, b3]
           ((unat b1 - 0xE0) * 4096 + (unat b2 - 0x80) * 64 + (unat b3 - 0x80))"
proof -
  define a where "a = unat b1 - 0xE0"
  define b where "b = unat b2 - 0x80"
  define c where "c = unat b3 - 0x80"
  define cp where "cp = a * 4096 + b * 64 + c"
  have a: "a \<le> 15" "0xE0 + a = unat b1"
    using assms(1) by (auto simp add: a_def in_range_def)
  have b: "b < 64" "0x80 + b = unat b2" "a = 0 \<longrightarrow> 32 \<le> b" "a = 13 \<longrightarrow> b < 32"
    using assms(1,2)
    by (auto simp add: a_def b_def utf8_second_def in_range_def split: if_splits)
  have c: "c < 64" "0x80 + c = unat b3"
    using assms(3) by (auto simp add: c_def utf8_tail_def in_range_def)
  have lo: "2048 \<le> cp"
  proof (cases "a = 0")
    case True
    with b(3) show ?thesis by (simp add: cp_def)
  next
    case False
    then have "1 \<le> a" by simp
    then have "1 * 4096 \<le> a * 4096" by (rule mult_le_mono1)
    then show ?thesis by (simp add: cp_def)
  qed
  have "a * 4096 \<le> 15 * 4096" using a(1) by (rule mult_le_mono1)
  then have hi: "cp < 65536" using b(1) c(1) by (simp add: cp_def)
  have ns: "\<not> (0xD800 \<le> cp \<and> cp < 0xE000)"
  proof -
    consider "a \<le> 12" | "a = 13" | "14 \<le> a" by linarith
    then show ?thesis
    proof cases
      case 1
      then have "a * 4096 \<le> 12 * 4096" by (rule mult_le_mono1)
      then show ?thesis using b(1) c(1) by (simp add: cp_def)
    next
      case 2
      with b(4) have "b < 32" by simp
      then show ?thesis using 2 c(1) by (simp add: cp_def)
    next
      case 3
      then have "14 * 4096 \<le> a * 4096" by (rule mult_le_mono1)
      then show ?thesis by (simp add: cp_def)
    qed
  qed
  have dm: "cp div 4096 = a" "(cp div 64) mod 64 = b" "cp mod 64 = c"
    unfolding cp_def using h3 [OF b(1) c(1)] by simp_all
  have s: "scalar_value cp" using hi ns by (simp add: scalar_value_def)
  have "utf8_bytes cp =
     [of_nat (0xE0 + cp div 4096), of_nat (0x80 + (cp div 64) mod 64), of_nat (0x80 + cp mod 64)]"
    using lo hi by (simp add: utf8_bytes_def)
  also have "\<dots> = [b1, b2, b3]"
    by (simp only: dm a b c) simp
  finally have bts: "utf8_bytes cp = [b1, b2, b3]" .
  have sec: "in_range (second_lower (unat b1)) (second_upper (unat b1)) (unat b2)"
    using assms(1,2)
    by (auto simp add: utf8_second_def second_lower_def second_upper_def in_range_def
        split: if_splits)
  have nl: "\<not> unat b1 < 0x80" "\<not> in_range 0xC2 0xDF (unat b1)"
    using assms(1) by (auto simp add: in_range_def)
  have d: "utf8_decode ([b1, b2, b3] @ t) = utf16_units cp @ utf8_decode t" for t
    using assms(1,3) sec nl by (simp add: utf8_tail_def cp_def a_def b_def c_def)
  have w: "well_formed_utf8 ([b1, b2, b3] @ t) = well_formed_utf8 t" for t
    using assms nl by simp
  have m: "(0x0A \<in> set [b1, b2, b3]) = ([b1, b2, b3] = [0x0A])"
    using assms(1) b(2) c(2) by (auto simp: byte_eq_newline in_range_def)
  have "(of_nat cp :: unit16) \<noteq> 0x0A"
    using lo hi unit_eq_newline [of cp] by simp
  then have m': "if [b1, b2, b3] = [0x0A] then utf16_units cp = [0x0A]
            else 0x0A \<notin> set (utf16_units cp)"
    using hi by (simp add: utf16_units_def)
  show ?thesis
    unfolding char_facts_def cp_def [symmetric] a_def [symmetric] b_def [symmetric]
      c_def [symmetric]
    using s bts d w m m' by blast
qed


lemma char4:
  assumes "in_range 0xF0 0xF4 (unat b1)" "utf8_second (unat b1) (unat b2)"
    "utf8_tail (unat b3)" "utf8_tail (unat b4)"
  shows "char_facts [b1, b2, b3, b4]
           ((unat b1 - 0xF0) * 262144 + (unat b2 - 0x80) * 4096 + (unat b3 - 0x80) * 64
            + (unat b4 - 0x80))"
proof -
  define a where "a = unat b1 - 0xF0"
  define b where "b = unat b2 - 0x80"
  define c where "c = unat b3 - 0x80"
  define d where "d = unat b4 - 0x80"
  define cp where "cp = a * 262144 + b * 4096 + c * 64 + d"
  have a: "a \<le> 4" "0xF0 + a = unat b1"
    using assms(1) by (auto simp add: a_def in_range_def)
  have b: "b < 64" "0x80 + b = unat b2" "a = 0 \<longrightarrow> 16 \<le> b" "a = 4 \<longrightarrow> b < 16"
    using assms(1,2)
    by (auto simp add: a_def b_def utf8_second_def in_range_def split: if_splits)
  have c: "c < 64" "0x80 + c = unat b3"
    using assms(3) by (auto simp add: c_def utf8_tail_def in_range_def)
  have d: "d < 64" "0x80 + d = unat b4"
    using assms(4) by (auto simp add: d_def utf8_tail_def in_range_def)
  have lo: "65536 \<le> cp"
  proof (cases "a = 0")
    case True
    with b(3) have "16 \<le> b" by simp
    then have "16 * 4096 \<le> b * 4096" by (rule mult_le_mono1)
    then show ?thesis by (simp add: cp_def)
  next
    case False
    then have "1 \<le> a" by simp
    then have "1 * 262144 \<le> a * 262144" by (rule mult_le_mono1)
    then show ?thesis by (simp add: cp_def)
  qed
  have hi: "cp < 0x110000"
  proof (cases "a = 4")
    case True
    with b(4) have "b \<le> 15" by simp
    then have "b * 4096 \<le> 15 * 4096" by (rule mult_le_mono1)
    then show ?thesis using True c(1) d(1) by (simp add: cp_def)
  next
    case False
    with a(1) have "a \<le> 3" by simp
    then have "a * 262144 \<le> 3 * 262144" by (rule mult_le_mono1)
    moreover have "b * 4096 \<le> 63 * 4096" using b(1) by (intro mult_le_mono1) simp
    ultimately show ?thesis using c(1) d(1) by (simp add: cp_def)
  qed
  have dm: "cp div 262144 = a" "(cp div 4096) mod 64 = b" "(cp div 64) mod 64 = c"
    "cp mod 64 = d"
    unfolding cp_def using h4 [OF b(1) c(1) d(1)] by simp_all
  have s: "scalar_value cp" using lo hi by (simp add: scalar_value_def)
  have "utf8_bytes cp =
     [of_nat (0xF0 + cp div 262144), of_nat (0x80 + (cp div 4096) mod 64),
      of_nat (0x80 + (cp div 64) mod 64), of_nat (0x80 + cp mod 64)]"
    using lo by (simp add: utf8_bytes_def)
  also have "\<dots> = [b1, b2, b3, b4]"
    by (simp only: dm a b c d) simp
  finally have bts: "utf8_bytes cp = [b1, b2, b3, b4]" .
  have sec: "in_range (second_lower (unat b1)) (second_upper (unat b1)) (unat b2)"
    using assms(1,2)
    by (auto simp add: utf8_second_def second_lower_def second_upper_def in_range_def
        split: if_splits)
  have nl: "\<not> unat b1 < 0x80" "\<not> in_range 0xC2 0xDF (unat b1)"
    "\<not> in_range 0xE0 0xEF (unat b1)"
    using assms(1) by (auto simp add: in_range_def)
  have dc: "utf8_decode ([b1, b2, b3, b4] @ t) = utf16_units cp @ utf8_decode t" for t
    using assms(1,3,4) sec nl by (simp add: utf8_tail_def cp_def a_def b_def c_def d_def)
  have w: "well_formed_utf8 ([b1, b2, b3, b4] @ t) = well_formed_utf8 t" for t
    using assms nl by simp
  have m: "(0x0A \<in> set [b1, b2, b3, b4]) = ([b1, b2, b3, b4] = [0x0A])"
    using assms(1) b(2) c(2) d(2) by (auto simp: byte_eq_newline in_range_def)
  have "(cp - 0x10000) div 1024 < 1024" using hi by simp
  then have "(of_nat (0xD800 + (cp - 0x10000) div 1024) :: unit16) \<noteq> 0x0A"
    using unit_eq_newline [of "0xD800 + (cp - 0x10000) div 1024"] by simp
  moreover have "(of_nat (0xDC00 + (cp - 0x10000) mod 1024) :: unit16) \<noteq> 0x0A"
    using unit_eq_newline [of "0xDC00 + (cp - 0x10000) mod 1024"] by simp
  ultimately have m': "if [b1, b2, b3, b4] = [0x0A] then utf16_units cp = [0x0A]
            else 0x0A \<notin> set (utf16_units cp)"
    using lo by (simp add: utf16_units_def del: of_nat_add)
  show ?thesis
    unfolding char_facts_def cp_def [symmetric] a_def [symmetric] b_def [symmetric]
      c_def [symmetric] d_def [symmetric]
    using s bts dc w m m' by blast
qed


lemma char_split:
  assumes "well_formed_utf8 (b # bs)"
  shows "\<exists>w r cp. b # bs = w @ r \<and> well_formed_utf8 r \<and> char_facts w cp"
proof -
  consider (one) "unat b < 0x80"
    | (two) "\<not> unat b < 0x80" "in_range 0xC2 0xDF (unat b)"
    | (three) "\<not> unat b < 0x80" "\<not> in_range 0xC2 0xDF (unat b)" "in_range 0xE0 0xEF (unat b)"
    | (four) "\<not> unat b < 0x80" "\<not> in_range 0xC2 0xDF (unat b)"
        "\<not> in_range 0xE0 0xEF (unat b)" "in_range 0xF0 0xF4 (unat b)"
    | (bad) "\<not> unat b < 0x80" "\<not> in_range 0xC2 0xDF (unat b)"
        "\<not> in_range 0xE0 0xEF (unat b)" "\<not> in_range 0xF0 0xF4 (unat b)"
    by blast
  then show ?thesis
  proof cases
    case one
    with assms have "well_formed_utf8 bs" by simp
    moreover have "b # bs = [b] @ bs" by simp
    ultimately show ?thesis using char1 [OF one] by blast
  next
    case two
    with assms obtain b2 r where bs: "bs = b2 # r" and t: "utf8_tail (unat b2)"
      and r: "well_formed_utf8 r"
      by (auto split: list.splits)
    have "b # bs = [b, b2] @ r" by (simp add: bs)
    then show ?thesis using char2 [OF two(2) t] r by blast
  next
    case three
    with assms obtain b2 b3 r where bs: "bs = b2 # b3 # r"
      and t: "utf8_second (unat b) (unat b2)" "utf8_tail (unat b3)"
      and r: "well_formed_utf8 r"
      by (auto split: list.splits)
    have "b # bs = [b, b2, b3] @ r" by (simp add: bs)
    then show ?thesis using char3 [OF three(3) t] r by blast
  next
    case four
    with assms obtain b2 b3 b4 r where bs: "bs = b2 # b3 # b4 # r"
      and t: "utf8_second (unat b) (unat b2)" "utf8_tail (unat b3)" "utf8_tail (unat b4)"
      and r: "well_formed_utf8 r"
      by (auto split: list.splits)
    have "b # bs = [b, b2, b3, b4] @ r" by (simp add: bs)
    then show ?thesis using char4 [OF four(4) t] r by blast
  next
    case bad
    with assms show ?thesis by simp
  qed
qed

lemma utf8_decode_append:
  "well_formed_utf8 a \<Longrightarrow> utf8_decode (a @ t) = utf8_decode a @ utf8_decode t"
proof (induction a rule: length_induct)
  case (1 a)
  show ?case
  proof (cases a)
    case Nil
    then show ?thesis by simp
  next
    case (Cons b bs)
    with "1.prems" obtain w r cp where wr: "a = w @ r" and r: "well_formed_utf8 r"
      and cf: "char_facts w cp"
      using char_split by blast
    from cf have ne: "w \<noteq> []" and d: "\<And>t. utf8_decode (w @ t) = utf16_units cp @ utf8_decode t"
      by (simp_all add: char_facts_def)
    have "length r < length a" using ne wr by simp
    with "1.IH" r have "utf8_decode (r @ t) = utf8_decode r @ utf8_decode t" by blast
    then show ?thesis by (simp add: wr d)
  qed
qed

lemma well_formed_utf8_append:
  "well_formed_utf8 a \<Longrightarrow> well_formed_utf8 (a @ t) = well_formed_utf8 t"
proof (induction a rule: length_induct)
  case (1 a)
  show ?case
  proof (cases a)
    case Nil
    then show ?thesis by simp
  next
    case (Cons b bs)
    with "1.prems" obtain w r cp where wr: "a = w @ r" and r: "well_formed_utf8 r"
      and cf: "char_facts w cp"
      using char_split by blast
    from cf have ne: "w \<noteq> []" and d: "\<And>t. well_formed_utf8 (w @ t) = well_formed_utf8 t"
      by (simp_all add: char_facts_def)
    have "length r < length a" using ne wr by simp
    with "1.IH" r have "well_formed_utf8 (r @ t) = well_formed_utf8 t" by blast
    then show ?thesis by (simp add: wr d)
  qed
qed

lemma well_formed_utf8_concat:
  "(\<forall>c \<in> set cs. well_formed_utf8 c) \<Longrightarrow> well_formed_utf8 (concat cs)"
  by (induction cs) (simp_all add: well_formed_utf8_append)

lemma utf8_decode_concat:
  "(\<forall>c \<in> set cs. well_formed_utf8 c) \<Longrightarrow> utf8_decode (concat cs) = concat (map utf8_decode cs)"
  by (induction cs) (simp_all add: utf8_decode_append)

lemma js_split_prepend:
  "sep \<notin> set u \<Longrightarrow>
   js_split sep (u @ xs) = (u @ hd (js_split sep xs)) # tl (js_split sep xs)"
proof (induction u)
  case Nil
  then show ?case using js_split_nonempty [of sep xs] by simp
next
  case (Cons x u)
  then show ?case by (auto simp add: js_split_Cons_no_sep)
qed

lemma split_decode:
  "well_formed_utf8 bs \<Longrightarrow> map utf8_encode (js_split 0x0A (utf8_decode bs)) = js_split 0x0A bs"
proof (induction bs rule: length_induct)
  case (1 a)
  show ?case
  proof (cases a)
    case Nil
    then show ?thesis by simp
  next
    case (Cons b bs)
    with "1.prems" obtain w r cp where wr: "a = w @ r" and r: "well_formed_utf8 r"
      and cf: "char_facts w cp"
      using char_split by blast
    from cf have ne: "w \<noteq> []"
      and sc: "scalar_value cp" and bts: "utf8_bytes cp = w"
      and d: "\<And>t. utf8_decode (w @ t) = utf16_units cp @ utf8_decode t"
      and m: "(0x0A \<in> set w) = (w = [0x0A])"
      and m': "if w = [0x0A] then utf16_units cp = [0x0A] else 0x0A \<notin> set (utf16_units cp)"
      by (simp_all add: char_facts_def)
    have "length r < length a" using ne wr by simp
    with "1.IH" r have IH: "map utf8_encode (js_split 0x0A (utf8_decode r)) = js_split 0x0A r"
      by blast
    let ?D = "js_split 0x0A (utf8_decode r)"
    have Dne: "?D \<noteq> []" by (rule js_split_nonempty)
    show ?thesis
    proof (cases "w = [0x0A]")
      case True
      with m' have u: "utf16_units cp = [0x0A]" by simp
      show ?thesis
        using IH by (simp add: wr True utf16_units_def)
    next
      case False
      have nw: "0x0A \<notin> set w" and nu: "0x0A \<notin> set (utf16_units cp)"
        using m m' False by simp_all
      have "map utf8_encode (js_split 0x0A (utf8_decode a)) =
          utf8_encode (utf16_units cp @ hd ?D) # map utf8_encode (tl ?D)"
        by (simp add: wr d js_split_prepend [OF nu])
      also have "\<dots> = (w @ utf8_encode (hd ?D)) # tl (map utf8_encode ?D)"
        by (simp add: utf8_encode_units [OF sc] bts map_tl)
      also have "\<dots> = (w @ hd (map utf8_encode ?D)) # tl (map utf8_encode ?D)"
        using Dne by (simp add: hd_map)
      also have "\<dots> = js_split 0x0A (w @ r)"
        by (simp add: IH js_split_prepend [OF nw])
      finally show ?thesis by (simp add: wr)
    qed
  qed
qed

section \<open>Facts about the relay towards the client\<close>

lemma utf8_bytes_nonempty: "utf8_bytes c \<noteq> []"
  by (simp add: utf8_bytes_def)

lemma utf8_encode_eq_Nil: "(utf8_encode m = []) = (m = [])"
  by (cases m rule: utf8_encode.cases) (simp_all add: utf8_bytes_nonempty)

lemma payload_text: "map frame_payload (map WsSendText ms) = map utf8_encode ms"
  by (simp add: frame_payload_def comp_def)

lemma filter_encode:
  "map utf8_encode (filter (\<lambda>m. m \<noteq> []) ms) = filter (\<lambda>b. b \<noteq> []) (map utf8_encode ms)"
  by (induction ms) (simp_all add: utf8_encode_eq_Nil)

lemma utf8_roundtrip:
  "well_formed_utf8 bs \<Longrightarrow> utf8_encode (utf8_decode bs) = bs"
proof (induction bs rule: length_induct)
  case (1 a)
  show ?case
  proof (cases a)
    case Nil
    then show ?thesis by simp
  next
    case (Cons b bs)
    with "1.prems" obtain w r cp where wr: "a = w @ r" and r: "well_formed_utf8 r"
      and cf: "char_facts w cp"
      using char_split by blast
    from cf have ne: "w \<noteq> []" and sc: "scalar_value cp" and bts: "utf8_bytes cp = w"
      and d: "\<And>t. utf8_decode (w @ t) = utf16_units cp @ utf8_decode t"
      by (simp_all add: char_facts_def)
    have "length r < length a" using ne wr by simp
    with "1.IH" r have "utf8_encode (utf8_decode r) = r" by blast
    then show ?thesis by (simp add: wr d utf8_encode_units [OF sc] bts)
  qed
qed

lemma chunks_decoded:
  assumes "\<forall>c \<in> set cs. well_formed_utf8 (snd c)"
  shows "decoded_stream cs = utf8_decode (chunk_stream cs)"
    and "well_formed_utf8 (chunk_stream cs)"
proof -
  have w: "\<forall>c \<in> set (map snd cs). well_formed_utf8 c" using assms by simp
  show "decoded_stream cs = utf8_decode (chunk_stream cs)"
    using utf8_decode_concat [OF w] by (simp add: decoded_stream_def chunk_stream_def comp_def)
  show "well_formed_utf8 (chunk_stream cs)"
    using well_formed_utf8_concat [OF w] by (simp add: chunk_stream_def)
qed

lemma segments_of_chunks:
  assumes "\<forall>c \<in> set cs. well_formed_utf8 (snd c)"
  shows "map utf8_encode (js_split 0x0A (decoded_stream cs)) = js_split 0x0A (chunk_stream cs)"
  using chunks_decoded [OF assms] split_decode by simp

lemma data_payloads:
  assumes "\<forall>c \<in> set cs. well_formed_utf8 (snd c)"
  shows "map frame_payload (concat (snd (feed [] (all_open cs)))) =
           filter (\<lambda>seg. seg \<noteq> []) (butlast (js_split 0x0A (chunk_stream cs)))"
proof -
  have "map frame_payload (concat (snd (feed [] (all_open cs)))) =
      map utf8_encode (filter (\<lambda>m. m \<noteq> []) (butlast (js_split 0x0A (decoded_stream cs))))"
  proof -
    have "concat (snd (feed [] (all_open cs))) =
        map WsSendText (filter (\<lambda>m. m \<noteq> []) (butlast (js_split 0x0A (decoded_stream cs))))"
      using feed_open_frames [of "[]" cs] by simp
    then show ?thesis by (simp only: payload_text)
  qed
  also have "\<dots> = filter (\<lambda>b. b \<noteq> []) (butlast (map utf8_encode (js_split 0x0A (decoded_stream cs))))"
    by (simp add: filter_encode map_butlast)
  finally show ?thesis by (simp add: segments_of_chunks [OF assms])
qed

lemma end_payload:
  assumes "\<forall>c \<in> set cs. well_formed_utf8 (snd c)"
  shows "map frame_payload (tcp_on_end ready (fst (feed [] cs))) =
           (if last (js_split 0x0A (chunk_stream cs)) \<noteq> [] \<and> ready = OPEN
            then [last (js_split 0x0A (chunk_stream cs))] else [])"
proof -
  let ?S = "js_split 0x0A (decoded_stream cs)"
  have r: "fst (feed [] cs) = last ?S" using feed_rest [of "[]" cs] by simp
  have "utf8_encode (last ?S) = last (map utf8_encode ?S)"
    by (simp add: last_map js_split_nonempty)
  then have e: "utf8_encode (last ?S) = last (js_split 0x0A (chunk_stream cs))"
    by (simp add: segments_of_chunks [OF assms])
  have n: "(last ?S \<noteq> []) = (last (js_split 0x0A (chunk_stream cs)) \<noteq> [])"
    using e utf8_encode_eq_Nil [of "last ?S"] by simp
  show ?thesis
    unfolding r tcp_on_end_def using e n by (simp add: frame_payload_def)
qed

text \<open>The definitions an evaluation of the relay at given chunks unfolds.\<close>

lemmas relay_eval =
  tcp_on_data_def tcp_on_end_def array_pop_def emit_def Let_def in_range_def second_lower_def
  second_upper_def utf16_units_def utf8_bytes_def is_high_surrogate_def is_low_surrogate_def
  frame_payload_def chunk_stream_def all_open_def utf8_tail_def utf8_second_def
  pair_code_point_def

text \<open>
  Where every chunk is by itself well-formed UTF-8, the relay does deliver the segments of
  the stream. Fed to a new Session while the client is open, such chunks make the relay
  send text frames whose payloads are exactly the non-empty complete segments of the
  concatenated octets, in stream order. With any states of the client connection, each
  data event sends what it would send with an open client if the client is open at that
  event and nothing otherwise, and \<open>rest\<close> is the same either way: what is not sent is
  not kept. The end of the stream sends the remainder, as one frame, when it is not empty
  and the client is open, and nothing otherwise; no data event sends it.
\<close>

lemma relay_delivers_segments:
  assumes "\<forall>c \<in> set cs. well_formed_utf8 (snd c)"
  shows "map frame_payload (concat (snd (feed [] (all_open cs)))) =
           filter (\<lambda>seg. seg \<noteq> []) (butlast (js_split 0x0A (chunk_stream cs)))
         \<and> snd (feed [] cs) =
             map (\<lambda>(c, out). if fst c = OPEN then out else [])
               (zip cs (snd (feed [] (all_open cs))))
         \<and> fst (feed [] cs) = fst (feed [] (all_open cs))
         \<and> map frame_payload (tcp_on_end ready (fst (feed [] cs))) =
             (if last (js_split 0x0A (chunk_stream cs)) \<noteq> [] \<and> ready = OPEN
              then [last (js_split 0x0A (chunk_stream cs))] else [])"
  using data_payloads [OF assms] end_payload [OF assms] feed_flags [of "[]" cs] by simp

text \<open>
  Claim C1 fails on the code when a chunk boundary falls inside a character. The backend
  stream \<open>C3 A9 0A\<close> is one complete line holding U+00E9. Arriving as one chunk it is
  delivered as the segment \<open>C3 A9\<close>. Arriving as the chunks \<open>C3\<close> and \<open>A9 0A\<close>,
  the same stream, with the same one complete segment, makes the relay send one text frame
  whose payload is \<open>EF BF BD EF BF BD\<close>, two U+FFFD: line 60 decodes each chunk by
  itself, \<open>chunk.toString('utf8')\<close>, before joining it to \<open>rest\<close>, so an octet
  sequence cut by the boundary is decoded as two malformed pieces. What the client
  receives is not a segment of the chunk stream, and it depends on where the chunks are
  cut, which \<open>rest\<close> is there to hide.
\<close>

theorem split_character_is_replaced:
  "chunk_stream [(OPEN, [0xC3]), (OPEN, [0xA9, 0x0A])] = chunk_stream [(OPEN, [0xC3, 0xA9, 0x0A])]
   \<and> filter (\<lambda>seg. seg \<noteq> [])
        (butlast (js_split 0x0A (chunk_stream [(OPEN, [0xC3]), (OPEN, [0xA9, 0x0A])])))
       = [[0xC3, 0xA9]]
   \<and> map frame_payload (concat (snd (feed [] [(OPEN, [0xC3, 0xA9, 0x0A])]))) = [[0xC3, 0xA9]]
   \<and> snd (feed [] [(OPEN, [0xC3]), (OPEN, [0xA9, 0x0A])])
       = [[], [WsSendText [0xFFFD, 0xFFFD]]]
   \<and> map frame_payload (concat (snd (feed [] [(OPEN, [0xC3]), (OPEN, [0xA9, 0x0A])])))
       = [[0xEF, 0xBF, 0xBD, 0xEF, 0xBF, 0xBD]]"
  by (simp add: relay_eval)

text \<open>
  Claim C8, as the code has it, for chunks that are each well-formed UTF-8. Over a whole
  stream received with the client open, the payloads of the frames sent, data events and
  end of stream together, are exactly the non-empty segments of the concatenated octets:
  no octet is altered, added or removed but the delimiters; and decoding the stream and
  encoding it again gives the stream back.
\<close>

theorem relay_is_byte_transparent:
  assumes "\<forall>c \<in> set cs. well_formed_utf8 (snd c)"
  shows "map frame_payload
           (concat (snd (feed [] (all_open cs))) @ tcp_on_end OPEN (fst (feed [] cs))) =
         filter (\<lambda>seg. seg \<noteq> []) (js_split 0x0A (chunk_stream cs))
         \<and> utf8_encode (utf8_decode (chunk_stream cs)) = chunk_stream cs"
proof -
  let ?S = "js_split 0x0A (chunk_stream cs)"
  have ne: "?S \<noteq> []" by (rule js_split_nonempty)
  have "filter (\<lambda>seg. seg \<noteq> []) ?S = filter (\<lambda>seg. seg \<noteq> []) (butlast ?S @ [last ?S])"
    using ne by simp
  then have f: "filter (\<lambda>seg. seg \<noteq> []) ?S =
      filter (\<lambda>seg. seg \<noteq> []) (butlast ?S) @ (if last ?S \<noteq> [] then [last ?S] else [])"
    by simp
  have a: "map frame_payload
           (concat (snd (feed [] (all_open cs))) @ tcp_on_end OPEN (fst (feed [] cs))) =
         filter (\<lambda>seg. seg \<noteq> []) ?S"
    unfolding f using data_payloads [OF assms] end_payload [OF assms, of OPEN] by simp
  have b: "utf8_encode (utf8_decode (chunk_stream cs)) = chunk_stream cs"
    by (rule utf8_roundtrip) (rule chunks_decoded(2) [OF assms])
  from a b show ?thesis by simp
qed


text \<open>
  Claim C8, witness: the hypothesis of \<open>relay_is_byte_transparent\<close> holds for a three-octet character and
  a delimiter, followed by a four-octet character that ends the stream.
\<close>

theorem relay_is_byte_transparent_witness:
  "well_formed_utf8 [0xE2, 0x82, 0xAC, 0x0A] \<and> well_formed_utf8 [0xF0, 0x9F, 0x98, 0x80]
   \<and> map frame_payload
        (concat (snd (feed [] (all_open [(OPEN, [0xE2, 0x82, 0xAC, 0x0A]),
                                          (OPEN, [0xF0, 0x9F, 0x98, 0x80])])))
         @ tcp_on_end OPEN (fst (feed [] [(OPEN, [0xE2, 0x82, 0xAC, 0x0A]),
                                          (OPEN, [0xF0, 0x9F, 0x98, 0x80])])))
       = [[0xE2, 0x82, 0xAC], [0xF0, 0x9F, 0x98, 0x80]]"
proof -
  let ?cs = "[(OPEN, [0xE2, 0x82, 0xAC, 0x0A]), (OPEN, [0xF0, 0x9F, 0x98, 0x80 :: byte])]"
  let ?S = "js_split 0x0A (chunk_stream ?cs)"
  have w: "well_formed_utf8 [0xE2, 0x82, 0xAC, 0x0A]" "well_formed_utf8 [0xF0, 0x9F, 0x98, 0x80]"
    by (simp_all add: relay_eval)
  then have h: "\<forall>c \<in> set ?cs. well_formed_utf8 (snd c)" by simp
  have s: "?S = [[0xE2, 0x82, 0xAC], [0xF0, 0x9F, 0x98, 0x80]]"
    by (simp add: chunk_stream_def)
  from relay_is_byte_transparent [OF h]
  have "map frame_payload
        (concat (snd (feed [] (all_open ?cs))) @ tcp_on_end OPEN (fst (feed [] ?cs))) =
      filter (\<lambda>seg. seg \<noteq> []) ?S"
    by (rule conjunct1)
  also have "\<dots> = [[0xE2, 0x82, 0xAC], [0xF0, 0x9F, 0x98, 0x80]]"
    unfolding s by simp
  finally show ?thesis using w by blast
qed

text \<open>
  Claim C8 as stated fails: the octet \<open>FF\<close> is not UTF-8, and the segment \<open>FF\<close> is
  delivered as the three octets of U+FFFD.
\<close>

theorem relay_invalid_octet_counterexample:
  "map frame_payload (snd (tcp_on_data OPEN [] [0xFF, 0x0A])) = [[0xEF, 0xBF, 0xBD]]
   \<and> filter (\<lambda>seg. seg \<noteq> []) (butlast (js_split 0x0A [0xFF, 0x0A :: byte])) = [[0xFF]]"
  by (simp add: relay_eval)


section \<open>Facts about base64\<close>

lemma unbase64_b64_char: "n < 64 \<Longrightarrow> unbase64 (b64_char n) = Some n"
  by (auto simp add: unbase64_def b64_char_def Let_def)

lemma b64_sextets_legal:
  "n < 64 \<Longrightarrow> b64_sextets (b64_char n # cs) = n # b64_sextets cs"
  by (simp add: unbase64_b64_char)

lemma unbase64_pad: "unbase64 CHR ''='' = None"
  by (simp add: unbase64_def)

lemma b64_sextets_pad: "b64_sextets (CHR ''='' # cs) = []"
  by (simp add: unbase64_pad)

lemma byte_parts:
  fixes a :: nat
  assumes "a < 256"
  shows "a div 4 < 64" "(a mod 4) * 16 < 64" "a div 16 < 16" "(a mod 16) * 4 < 64"
    "a div 64 < 4" "a mod 64 < 64"
  using assms by auto

lemma sextet_sums:
  fixes a b c :: nat
  assumes "a < 256" "b < 256" "c < 256"
  shows "(a mod 4) * 16 + b div 16 < 64" "(b mod 16) * 4 + c div 64 < 64"
proof -
  have "(a mod 4) * 16 \<le> 3 * 16" by (intro mult_le_mono1) simp
  moreover have "b div 16 < 16" using assms by simp
  ultimately show "(a mod 4) * 16 + b div 16 < 64" by simp
  have "(b mod 16) * 4 \<le> 15 * 4" by (intro mult_le_mono1) simp
  moreover have "c div 64 < 4" using assms by simp
  ultimately show "(b mod 16) * 4 + c div 64 < 64" by simp
qed

lemma regroup:
  fixes a b c :: nat
  assumes "a < 256" "b < 256" "c < 256"
  shows "(a div 4) * 4 + ((a mod 4) * 16 + b div 16) div 16 = a"
    and "(((a mod 4) * 16 + b div 16) mod 16) * 16 + ((b mod 16) * 4 + c div 64) div 4 = b"
    and "(((b mod 16) * 4 + c div 64) mod 4) * 64 + c mod 64 = c"
proof -
  have b16: "b div 16 < 16" and c64: "c div 64 < 4" using assms by simp_all
  have 1: "((a mod 4) * 16 + b div 16) div 16 = a mod 4"
    using b16 by simp
  have 2: "((a mod 4) * 16 + b div 16) mod 16 = b div 16"
    using b16 by simp
  have 3: "((b mod 16) * 4 + c div 64) div 4 = b mod 16"
    using c64 by simp
  have 4: "((b mod 16) * 4 + c div 64) mod 4 = c div 64"
    using c64 by simp
  show "(a div 4) * 4 + ((a mod 4) * 16 + b div 16) div 16 = a"
    unfolding 1 by simp
  show "(((a mod 4) * 16 + b div 16) mod 16) * 16 + ((b mod 16) * 4 + c div 64) div 4 = b"
    unfolding 2 3 by simp
  show "(((b mod 16) * 4 + c div 64) mod 4) * 64 + c mod 64 = c"
    unfolding 4 by simp
qed

lemma base64_nat_roundtrip:
  "list_all (\<lambda>n. n < 256) ns \<Longrightarrow>
   sextets_to_bytes (b64_sextets (base64_encode_nat ns)) = map of_nat ns"
proof (induction ns rule: base64_encode_nat.induct)
  case (1 a b c bs)
  then have lt: "a < 256" "b < 256" "c < 256" and rest: "list_all (\<lambda>n. n < 256) bs"
    by simp_all
  note s = byte_parts [OF lt(1)] byte_parts [OF lt(2)] byte_parts [OF lt(3)] sextet_sums [OF lt]
  have "b64_sextets (base64_encode_nat (a # b # c # bs)) =
      a div 4 # ((a mod 4) * 16 + b div 16) # ((b mod 16) * 4 + c div 64) # c mod 64
      # b64_sextets (base64_encode_nat bs)"
    by (simp only: base64_encode_nat.simps append_Cons append_Nil b64_sextets_legal s)
  then show ?case
    using "1.IH" [OF rest] by (simp only: sextets_to_bytes.simps regroup [OF lt]) simp
next
  case (2 a b)
  then have lt: "a < 256" "b < 256" by simp_all
  note s = byte_parts [OF lt(1)] byte_parts [OF lt(2)] sextet_sums [OF lt lt(2)]
  have "b64_sextets (base64_encode_nat [a, b]) =
      [a div 4, (a mod 4) * 16 + b div 16, (b mod 16) * 4]"
    by (simp only: base64_encode_nat.simps b64_sextets_legal b64_sextets_pad s)
  moreover have "((b mod 16) * 4) div 4 = b mod 16" by simp
  ultimately show ?case
    using regroup(1,2) [OF lt, of 0] by (simp del: of_nat_add of_nat_mult)
next
  case (3 a)
  then have lt: "a < 256" by simp
  note s = byte_parts [OF lt]
  have "b64_sextets (base64_encode_nat [a]) = [a div 4, (a mod 4) * 16]"
    by (simp only: base64_encode_nat.simps b64_sextets_legal b64_sextets_pad s)
  then show ?case
    using regroup(1) [OF lt, of 0 0] by (simp del: of_nat_add of_nat_mult)
next
  case 4
  then show ?case by simp
qed

lemma base64_roundtrip: "buffer_from_base64 (base64_encode bs) = bs"
proof -
  have "list_all (\<lambda>n. n < 256) (map unat bs)"
    by (induction bs) (simp_all add: unat_byte_lt)
  from base64_nat_roundtrip [OF this] show ?thesis
    by (simp add: buffer_from_base64_def base64_encode_def comp_def)
qed


section \<open>Facts about encoding strings\<close>

lemma digits3:
  fixes cp :: nat
  obtains a c d where "cp = a * 4096 + c * 64 + d" "c < 64" "d < 64"
    "cp div 4096 = a" "(cp div 64) mod 64 = c" "cp mod 64 = d"
proof -
  have 1: "cp = (cp div 64) * 64 + cp mod 64" by simp
  have 2: "cp div 64 = (cp div 64 div 64) * 64 + (cp div 64) mod 64" by simp
  have 3: "cp div 64 div 64 = cp div 4096" by (simp add: div_mult2_eq)
  have "cp = ((cp div 4096) * 64 + (cp div 64) mod 64) * 64 + cp mod 64"
    using 1 2 3 by metis
  then have "cp = (cp div 4096) * 4096 + ((cp div 64) mod 64) * 64 + cp mod 64"
    by (simp add: add_mult_distrib)
  then show ?thesis
    using that [of "cp div 4096" "(cp div 64) mod 64" "cp mod 64"] by simp
qed

lemma digits4:
  fixes cp :: nat
  obtains a b c d where "cp = a * 262144 + b * 4096 + c * 64 + d" "b < 64" "c < 64" "d < 64"
    "cp div 262144 = a" "(cp div 4096) mod 64 = b" "(cp div 64) mod 64 = c" "cp mod 64 = d"
proof -
  obtain a' c d where x: "cp = a' * 4096 + c * 64 + d" "c < 64" "d < 64"
    "cp div 4096 = a'" "(cp div 64) mod 64 = c" "cp mod 64 = d"
    by (rule digits3)
  have 2: "a' div 64 = cp div 262144"
    unfolding x(4) [symmetric] by (simp add: div_mult2_eq)
  have "a' * 4096 = ((a' div 64) * 64 + a' mod 64) * 4096" by simp
  also have "\<dots> = (a' div 64) * 262144 + (a' mod 64) * 4096"
    unfolding add_mult_distrib mult.assoc by simp
  finally have "cp = (a' div 64) * 262144 + (a' mod 64) * 4096 + c * 64 + d"
    using x(1) by simp
  then show ?thesis
    using that [of "a' div 64" "a' mod 64" c d] x 2 by simp
qed

lemma scalar_char_facts:
  assumes "scalar_value cp"
  shows "char_facts (utf8_bytes cp) cp"
proof -
  consider (one) "cp < 0x80" | (two) "0x80 \<le> cp" "cp < 0x800"
    | (three) "0x800 \<le> cp" "cp < 0x10000" | (four) "0x10000 \<le> cp"
    by linarith
  then show ?thesis
  proof cases
    case one
    then have u: "unat (of_nat cp :: byte) = cp" by (intro unat_of_nat_byte) simp
    have "char_facts [of_nat cp :: byte] (unat (of_nat cp :: byte))"
      by (rule char1) (simp only: u one)
    then show ?thesis using one by (simp only: u utf8_bytes_def if_True)
  next
    case two
    have dm: "cp div 64 < 32" "cp mod 64 < 64" "2 \<le> cp div 64" using two by simp_all
    let ?b1 = "of_nat (0xC0 + cp div 64) :: byte" and ?b2 = "of_nat (0x80 + cp mod 64) :: byte"
    have u1: "unat ?b1 = 0xC0 + cp div 64" using dm by (intro unat_of_nat_byte) simp
    have u2: "unat ?b2 = 0x80 + cp mod 64" using dm by (intro unat_of_nat_byte) simp
    have r: "in_range 0xC2 0xDF (unat ?b1)" "utf8_tail (unat ?b2)"
      unfolding u1 u2 using dm by (simp_all add: in_range_def utf8_tail_def)
    have e: "(unat ?b1 - 0xC0) * 64 + (unat ?b2 - 0x80) = cp"
      unfolding u1 u2 by simp
    have b: "utf8_bytes cp = [?b1, ?b2]" using two by (simp add: utf8_bytes_def)
    from char2 [OF r] show ?thesis unfolding e b .
  next
    case three
    obtain a c d where x: "cp = a * 4096 + c * 64 + d" "c < 64" "d < 64"
      "cp div 4096 = a" "(cp div 64) mod 64 = c" "cp mod 64 = d"
      by (rule digits3)
    have a: "a < 16" using three(2) x(1) by linarith
    let ?b1 = "of_nat (0xE0 + a) :: byte" and ?b2 = "of_nat (0x80 + c) :: byte"
      and ?b3 = "of_nat (0x80 + d) :: byte"
    have u1: "unat ?b1 = 0xE0 + a" using a by (intro unat_of_nat_byte) simp
    have u2: "unat ?b2 = 0x80 + c" using x(2) by (intro unat_of_nat_byte) simp
    have u3: "unat ?b3 = 0x80 + d" using x(3) by (intro unat_of_nat_byte) simp
    have lo: "a = 0 \<longrightarrow> 32 \<le> c" using three(1) x(1,2,3) by linarith
    have ns: "a = 13 \<longrightarrow> c < 32"
      using assms x(1,2,3) by (auto simp add: scalar_value_def)
    have r: "in_range 0xE0 0xEF (unat ?b1)" "utf8_second (unat ?b1) (unat ?b2)"
      "utf8_tail (unat ?b3)"
      unfolding u1 u2 u3 using a x(2,3) lo ns
      by (auto simp add: in_range_def utf8_tail_def utf8_second_def)
    have e: "(unat ?b1 - 0xE0) * 4096 + (unat ?b2 - 0x80) * 64 + (unat ?b3 - 0x80) = cp"
      unfolding u1 u2 u3 using x(1) by simp
    have b: "utf8_bytes cp = [?b1, ?b2, ?b3]"
      using three by (simp add: utf8_bytes_def x(4,5,6))
    from char3 [OF r] show ?thesis unfolding e b .
  next
    case four
    have hi: "cp < 0x110000" using assms by (simp add: scalar_value_def)
    obtain a b c d where x: "cp = a * 262144 + b * 4096 + c * 64 + d" "b < 64" "c < 64" "d < 64"
      "cp div 262144 = a" "(cp div 4096) mod 64 = b" "(cp div 64) mod 64 = c" "cp mod 64 = d"
      by (rule digits4)
    have a: "a \<le> 4" using hi x(1) by linarith
    let ?b1 = "of_nat (0xF0 + a) :: byte" and ?b2 = "of_nat (0x80 + b) :: byte"
      and ?b3 = "of_nat (0x80 + c) :: byte" and ?b4 = "of_nat (0x80 + d) :: byte"
    have u1: "unat ?b1 = 0xF0 + a" using a by (intro unat_of_nat_byte) simp
    have u2: "unat ?b2 = 0x80 + b" using x(2) by (intro unat_of_nat_byte) simp
    have u3: "unat ?b3 = 0x80 + c" using x(3) by (intro unat_of_nat_byte) simp
    have u4: "unat ?b4 = 0x80 + d" using x(4) by (intro unat_of_nat_byte) simp
    have lo: "a = 0 \<longrightarrow> 16 \<le> b" using four x(1,2,3,4) by linarith
    have up: "a = 4 \<longrightarrow> b < 16" using hi x(1,2,3,4) by linarith
    have r: "in_range 0xF0 0xF4 (unat ?b1)" "utf8_second (unat ?b1) (unat ?b2)"
      "utf8_tail (unat ?b3)" "utf8_tail (unat ?b4)"
      unfolding u1 u2 u3 u4 using a x(2,3,4) lo up
      by (auto simp add: in_range_def utf8_tail_def utf8_second_def)
    have e: "(unat ?b1 - 0xF0) * 262144 + (unat ?b2 - 0x80) * 4096 + (unat ?b3 - 0x80) * 64
        + (unat ?b4 - 0x80) = cp"
      unfolding u1 u2 u3 u4 using x(1) by simp
    have bb: "utf8_bytes cp = [?b1, ?b2, ?b3, ?b4]"
      using four by (simp add: utf8_bytes_def x(5,6,7,8))
    from char4 [OF r] show ?thesis unfolding e bb .
  qed
qed


lemma decode_bytes:
  "scalar_value cp \<Longrightarrow> utf8_decode (utf8_bytes cp @ t) = utf16_units cp @ utf8_decode t"
  using scalar_char_facts [of cp] by (simp add: char_facts_def)

lemma unat_unit16_lt: "unat (u :: unit16) < 65536"
  using unsigned_less [of u] by simp

lemma unit_scalar:
  assumes "\<not> is_high_surrogate (unat u)" "\<not> is_low_surrogate (unat u)"
  shows "scalar_value (unat u)" "utf16_units (unat u) = [u]"
  using assms unat_unit16_lt [of u]
  by (auto simp add: scalar_value_def utf16_units_def is_high_surrogate_def
      is_low_surrogate_def)

lemma pair_scalar:
  assumes "is_high_surrogate (unat u)" "is_low_surrogate (unat v)"
  shows "scalar_value (pair_code_point (unat u) (unat v))"
    "utf16_units (pair_code_point (unat u) (unat v)) = [u, v]"
proof -
  define h where "h = unat u - 0xD800"
  define l where "l = unat v - 0xDC00"
  have h: "h < 1024" "0xD800 + h = unat u"
    using assms(1) by (auto simp add: h_def is_high_surrogate_def)
  have l: "l < 1024" "0xDC00 + l = unat v"
    using assms(2) by (auto simp add: l_def is_low_surrogate_def)
  have p: "pair_code_point (unat u) (unat v) = 0x10000 + h * 1024 + l"
    by (simp add: pair_code_point_def h_def l_def)
  have "h * 1024 \<le> 1023 * 1024" using h(1) by (intro mult_le_mono1) simp
  then show "scalar_value (pair_code_point (unat u) (unat v))"
    unfolding p using l(1) by (simp add: scalar_value_def)
  have d: "(h * 1024 + l) div 1024 = h" "(h * 1024 + l) mod 1024 = l"
    using l(1) by simp_all
  have "utf16_units (0x10000 + h * 1024 + l) =
      [of_nat (0xD800 + (h * 1024 + l) div 1024), of_nat (0xDC00 + (h * 1024 + l) mod 1024)]"
    by (simp add: utf16_units_def add.assoc)
  also have "\<dots> = [u, v]"
    by (simp only: d h l) simp
  finally show "utf16_units (pair_code_point (unat u) (unat v)) = [u, v]"
    unfolding p .
qed

lemma utf16_roundtrip: "well_formed_utf16 s \<Longrightarrow> utf8_decode (utf8_encode s) = s"
proof (induction s rule: well_formed_utf16.induct)
  case 1
  then show ?case by simp
next
  case (2 u)
  then have n: "\<not> is_high_surrogate (unat u)" "\<not> is_low_surrogate (unat u)" by simp_all
  from decode_bytes [OF unit_scalar(1) [OF n], of "[]"] show ?case
    using n by (simp add: unit_scalar(2) [OF n])
next
  case (3 u v us)
  show ?case
  proof (cases "is_high_surrogate (unat u)")
    case True
    with "3.prems" have lo: "is_low_surrogate (unat v)" and w: "well_formed_utf16 us"
      by simp_all
    from "3.IH"(1) [OF True w] decode_bytes [OF pair_scalar(1) [OF True lo]]
    show ?thesis using True lo by (simp add: pair_scalar(2) [OF True lo])
  next
    case False
    with "3.prems" have n: "\<not> is_low_surrogate (unat u)" and w: "well_formed_utf16 (v # us)"
      by simp_all
    from "3.IH"(2) [OF False w] decode_bytes [OF unit_scalar(1) [OF False n]]
    show ?thesis using False n by (simp add: unit_scalar(2) [OF False n])
  qed
qed

lemma well_formed_utf16_append:
  "well_formed_utf16 a \<Longrightarrow> well_formed_utf16 b \<Longrightarrow> well_formed_utf16 (a @ b)"
proof (induction a rule: well_formed_utf16.induct)
  case 1
  then show ?case by simp
next
  case (2 u)
  then show ?case by (cases b) simp_all
next
  case (3 u v us)
  then show ?case by (simp split: if_splits)
qed

lemma well_formed_utf16_plain:
  "list_all (\<lambda>u. unat u < 0xD800) s \<Longrightarrow> well_formed_utf16 s"
proof (induction s rule: well_formed_utf16.induct)
  case 1
  then show ?case by simp
next
  case (2 u)
  then show ?case by (simp add: is_high_surrogate_def is_low_surrogate_def)
next
  case (3 u v us)
  then show ?case by (simp add: is_high_surrogate_def is_low_surrogate_def)
qed


section \<open>Facts about the residual tail\<close>

lemma utf8_bytes_newline:
  assumes "scalar_value cp" "0x0A \<in> set (utf8_bytes cp)"
  shows "cp = 10"
proof -
  from scalar_char_facts [OF assms(1)] assms(2) have one: "utf8_bytes cp = [0x0A]"
    by (simp add: char_facts_def)
  then have small: "cp < 0x80"
    by (simp add: utf8_bytes_def split: if_splits)
  with one have "(of_nat cp :: byte) = 0x0A" by (simp add: utf8_bytes_def)
  then have "unat (of_nat cp :: byte) = 10" by (simp add: byte_eq_newline)
  moreover have "unat (of_nat cp :: byte) = cp" using small by (intro unat_of_nat_byte) simp
  ultimately show ?thesis by simp
qed

lemma unit16_newline: "unat (u :: unit16) = 10 \<Longrightarrow> u = 0x0A"
proof -
  assume "unat u = 10"
  then have "of_nat (unat u) = (of_nat 10 :: unit16)" by simp
  then show "u = 0x0A" by simp
qed

lemma scalar_replacement: "scalar_value 0xFFFD"
  by (simp add: scalar_value_def)

lemma pair_not_newline:
  "is_high_surrogate h \<Longrightarrow> is_low_surrogate l \<Longrightarrow> pair_code_point h l \<noteq> 10"
  by (simp add: pair_code_point_def)

lemma utf8_encode_newline:
  "0x0A \<in> set (utf8_encode s) \<Longrightarrow> 0x0A \<in> set s"
proof (induction s rule: utf8_encode.induct)
  case 1
  then show ?case by simp
next
  case (2 u)
  show ?case
  proof (cases "is_high_surrogate (unat u) \<or> is_low_surrogate (unat u)")
    case True
    with "2.prems" have "0x0A \<in> set (utf8_bytes 0xFFFD)" by simp
    from utf8_bytes_newline [OF scalar_replacement this] show ?thesis by simp
  next
    case False
    then have n: "\<not> is_high_surrogate (unat u)" "\<not> is_low_surrogate (unat u)" by simp_all
    with "2.prems" have "0x0A \<in> set (utf8_bytes (unat u))" by simp
    from utf8_bytes_newline [OF unit_scalar(1) [OF n] this] show ?thesis
      by (simp add: unit16_newline)
  qed
next
  case (3 u v us)
  show ?case
  proof (cases "is_high_surrogate (unat u)")
    case True
    note hi = this
    show ?thesis
    proof (cases "is_low_surrogate (unat v)")
      case True
      with hi "3.prems" consider
        "0x0A \<in> set (utf8_bytes (pair_code_point (unat u) (unat v)))"
        | "0x0A \<in> set (utf8_encode us)"
        by auto
      then show ?thesis
      proof cases
        case 1
        from utf8_bytes_newline [OF pair_scalar(1) [OF hi True] 1]
          pair_not_newline [OF hi True] show ?thesis by simp
      next
        case 2
        from "3.IH"(1) [OF hi True 2] show ?thesis by simp
      qed
    next
      case False
      with hi "3.prems" consider "0x0A \<in> set (utf8_bytes 0xFFFD)"
        | "0x0A \<in> set (utf8_encode (v # us))"
        by auto
      then show ?thesis
      proof cases
        case 1
        from utf8_bytes_newline [OF scalar_replacement 1] show ?thesis by simp
      next
        case 2
        from "3.IH"(2) [OF hi False 2] show ?thesis by simp
      qed
    qed
  next
    case False
    note nh = this
    show ?thesis
    proof (cases "is_low_surrogate (unat u)")
      case True
      with nh "3.prems" consider "0x0A \<in> set (utf8_bytes 0xFFFD)"
        | "0x0A \<in> set (utf8_encode (v # us))"
        by auto
      then show ?thesis
      proof cases
        case 1
        from utf8_bytes_newline [OF scalar_replacement 1] show ?thesis by simp
      next
        case 2
        from "3.IH"(3) [OF nh True 2] show ?thesis by simp
      qed
    next
      case False
      with nh "3.prems" consider "0x0A \<in> set (utf8_bytes (unat u))"
        | "0x0A \<in> set (utf8_encode (v # us))"
        by auto
      then show ?thesis
      proof cases
        case 1
        from utf8_bytes_newline [OF unit_scalar(1) [OF nh False] 1] show ?thesis
          by (simp add: unit16_newline)
      next
        case 2
        from "3.IH"(4) [OF nh False 2] show ?thesis by simp
      qed
    qed
  qed
qed

text \<open>
  Claim C7. Whatever \<open>rest\<close> (here \<open>tail\<close>) held before, after a data event it holds
  no delimiter; so it holds none after any sequence of chunks fed to a new Session, whose
  \<open>rest\<close> starts empty, whatever the state of the client connection at each chunk. The
  same holds of its octets: the UTF-8 encoding of \<open>rest\<close> never holds the octet 0x0A.
\<close>

theorem rest_never_holds_delimiter:
  "0x0A \<notin> set (fst (tcp_on_data ready tail chunk))
   \<and> 0x0A \<notin> set (fst (feed [] cs))
   \<and> 0x0A \<notin> set (utf8_encode (fst (tcp_on_data ready tail chunk)))
   \<and> 0x0A \<notin> set (utf8_encode (fst (feed [] cs)))"
proof -
  have a: "0x0A \<notin> set (fst (tcp_on_data ready tail chunk))"
    by (simp only: tcp_on_data_rest last_js_split_no_sep not_False_eq_True)
  have "0x0A \<notin> set r \<Longrightarrow> 0x0A \<notin> set (fst (feed r cs))" for r
  proof (induction cs arbitrary: r)
    case Nil
    then show ?case by simp
  next
    case (Cons c cs)
    obtain ready chunk where c: "c = (ready, chunk)" by (cases c)
    have "0x0A \<notin> set (fst (tcp_on_data ready r chunk))"
      by (simp only: tcp_on_data_rest last_js_split_no_sep not_False_eq_True)
    from Cons.IH [OF this] show ?case
      by (simp add: c fst_feed_Cons del: feed.simps)
  qed
  then have b: "0x0A \<notin> set (fst (feed [] cs))" by simp
  from a b utf8_encode_newline show ?thesis by blast
qed

section \<open>Facts about teardown\<close>

lemma closeAll_actions:
  "snd (closeAll s) = (if ws_ready s = OPEN then [TcpDestroy, WsClose] else [TcpDestroy])"
  by (simp add: closeAll_def)

lemma closeAll_ws_ready:
  "ws_ready (fst (closeAll s)) = (if ws_ready s = OPEN then CLOSING else ws_ready s)"
  by (simp add: closeAll_def)

lemma closeAll_tcp_destroyed: "tcp_destroyed (fst (closeAll s))"
  by (simp add: closeAll_def)

lemma closeAll_ka: "ka_active (fst (closeAll s)) = ka_active s"
  by (simp add: closeAll_def)

lemma trigger_actions:
  "snd (step s (trigger_event t)) =
     (if t = ClientClose then [TcpDestroy, ClearInterval]
      else if ws_ready s = OPEN then [TcpDestroy, WsClose] else [TcpDestroy])"
  by (cases t) (simp_all add: closeAll_def split: prod.splits)

lemma trigger_ws_ready:
  "ws_ready (fst (step s (trigger_event t))) =
     (if t = ClientClose then CLOSED else if ws_ready s = OPEN then CLOSING else ws_ready s)"
  by (cases t) (simp_all add: closeAll_def split: prod.splits)

lemma trigger_tcp_destroyed: "tcp_destroyed (fst (step s (trigger_event t)))"
  by (cases t) (simp_all add: closeAll_def split: prod.splits)

lemma run_Cons_snd:
  "snd (run s (e # es)) = snd (step s e) @ snd (run (fst (step s e)) es)"
  by (simp split: prod.splits)

lemma run_Cons_fst: "fst (run s (e # es)) = fst (run (fst (step s e)) es)"
  by (simp split: prod.splits)

lemma run_snoc_fst: "fst (run s (es @ [e])) = fst (step (fst (run s es)) e)"
  by (induction es arbitrary: s) (simp_all add: run_Cons_fst del: run.simps(2) split: prod.splits)

lemma triggers_not_open:
  "ws_ready s \<noteq> OPEN \<Longrightarrow> snd (run s (map trigger_event ts)) \<in> lists {TcpDestroy, ClearInterval}"
proof (induction ts arbitrary: s)
  case Nil
  then show ?case by simp
next
  case (Cons t ts)
  have "ws_ready (fst (step s (trigger_event t))) \<noteq> OPEN"
    using Cons.prems by (simp add: trigger_ws_ready)
  from Cons.IH [OF this] Cons.prems show ?case
    by (simp add: run_Cons_snd trigger_actions del: run.simps(2))
qed

lemma count_list_lists: "xs \<in> lists A \<Longrightarrow> x \<notin> A \<Longrightarrow> count_list xs x = 0"
  by (induction xs) auto

lemma triggers_close_count:
  "count_list (snd (run s (map trigger_event ts))) WsClose \<le> (if ws_ready s = OPEN then 1 else 0)"
proof (induction ts arbitrary: s)
  case Nil
  then show ?case by simp
next
  case (Cons t ts)
  let ?s' = "fst (step s (trigger_event t))"
  have closed: "ws_ready ?s' \<noteq> OPEN" by (simp add: trigger_ws_ready)
  have "snd (run ?s' (map trigger_event ts)) \<in> lists {TcpDestroy, ClearInterval}"
    by (rule triggers_not_open [OF closed])
  then have z: "count_list (snd (run ?s' (map trigger_event ts))) WsClose = 0"
    by (rule count_list_lists) simp
  show ?case
    by (simp add: run_Cons_snd trigger_actions z del: run.simps(2))
qed

lemma triggers_actions_subset:
  "set (snd (run s (map trigger_event ts))) \<subseteq> {TcpDestroy, WsClose, ClearInterval}"
proof (induction ts arbitrary: s)
  case Nil
  then show ?case by simp
next
  case (Cons t ts)
  from Cons.IH [of "fst (step s (trigger_event t))"] show ?case
    by (auto simp add: run_Cons_snd trigger_actions simp del: run.simps(2))
qed

text \<open>
  Claim C4, as the code has it. Over any sequence of the four triggers, from any state of
  the Session: \<open>ws.close()\<close> is called at most once, and not at all unless the client
  was open at the start; the triggers call nothing but \<open>tcp.destroy()\<close>, \<open>ws.close()\<close>
  and \<open>clearInterval\<close>, so nothing is sent or written. Each trigger calls
  \<open>tcp.destroy()\<close>, also when the socket is destroyed already: a trigger that follows
  another one calls \<open>tcp.destroy()\<close> again and touches the client no more (the client
  close event also clears the interval). After any trigger the socket is destroyed and the
  client is no longer open.
\<close>

theorem teardown_triggers:
  "count_list (snd (run s (map trigger_event ts))) WsClose \<le> (if ws_ready s = OPEN then 1 else 0)
   \<and> set (snd (run s (map trigger_event ts))) \<subseteq> {TcpDestroy, WsClose, ClearInterval}
   \<and> snd (step s (trigger_event t)) =
       (if t = ClientClose then [TcpDestroy, ClearInterval]
        else if ws_ready s = OPEN then [TcpDestroy, WsClose] else [TcpDestroy])
   \<and> snd (step (fst (step s (trigger_event t))) (trigger_event t')) =
       (if t' = ClientClose then [TcpDestroy, ClearInterval] else [TcpDestroy])
   \<and> tcp_destroyed (fst (step s (trigger_event t)))
   \<and> ws_ready (fst (step s (trigger_event t))) \<noteq> OPEN"
  by (simp add: triggers_close_count triggers_actions_subset trigger_actions trigger_ws_ready
      trigger_tcp_destroyed del: step.simps run.simps)

text \<open>
  Claim C4 as stated fails: after a backend error has torn the Session down (the state is
  closing and the socket is destroyed), the backend close event that follows is not a
  no-op: \<open>closeAll\<close> calls \<open>tcp.destroy()\<close> on the destroyed socket.
\<close>

theorem teardown_counterexample:
  "lifecycle_of (fst (step new_session TcpErrorEvent)) = Closing
   \<and> tcp_destroyed (fst (step new_session TcpErrorEvent))
   \<and> snd (step (fst (step new_session TcpErrorEvent)) TcpCloseEvent) = [TcpDestroy]"
  by (simp add: new_session_def closeAll_def lifecycle_of_def)

section \<open>Facts about the liveness probe\<close>

lemma step_ka: "ka_active (fst (step s e)) = (ka_active s \<and> e \<noteq> WsCloseEvent)"
  by (cases e) (auto simp: closeAll_def split: prod.splits)

lemma step_ping: "(WsPing \<in> set (snd (step s e))) = (e = Tick \<and> ka_active s)"
  by (cases e) (auto simp: closeAll_def tcp_on_data_eq tcp_on_end_def split: prod.splits)

lemma run_ka: "ka_active (fst (run s es)) = (ka_active s \<and> WsCloseEvent \<notin> set es)"
proof (induction es arbitrary: s)
  case Nil
  then show ?case by simp
next
  case (Cons e es)
  show ?case
    unfolding run_Cons_fst Cons.IH step_ka by auto
qed

lemma step_ws_closed:
  "(ws_ready (fst (step s e)) = CLOSED) = (ws_ready s = CLOSED \<or> e = WsCloseEvent)"
  by (cases e) (auto simp: closeAll_def split: prod.splits)

lemma run_ws_closed:
  "(ws_ready (fst (run s es)) = CLOSED) = (ws_ready s = CLOSED \<or> WsCloseEvent \<in> set es)"
proof (induction es arbitrary: s)
  case Nil
  then show ?case by simp
next
  case (Cons e es)
  show ?case
    unfolding run_Cons_fst Cons.IH step_ws_closed by auto
qed

text \<open>Once the backend socket is destroyed the client connection is no longer open.\<close>

lemma step_destroyed_inv:
  "(tcp_destroyed s \<longrightarrow> ws_ready s \<noteq> OPEN) \<Longrightarrow>
   (tcp_destroyed (fst (step s e)) \<longrightarrow> ws_ready (fst (step s e)) \<noteq> OPEN)"
  by (cases e) (auto simp: closeAll_def split: prod.splits if_splits)

lemma run_destroyed_inv:
  "tcp_destroyed (fst (run new_session es)) \<longrightarrow> ws_ready (fst (run new_session es)) \<noteq> OPEN"
proof (induction es rule: rev_induct)
  case Nil
  then show ?case by (simp add: new_session_def)
next
  case (snoc e es)
  then show ?case
    using step_destroyed_inv [of "fst (run new_session es)" e]
    by (simp only: run_snoc_fst)
qed

text \<open>
  In the states a Session reaches, the client connection is open exactly in the
  connecting and active states.
\<close>

lemma open_lifecycle:
  "(ws_ready (fst (run new_session es)) = OPEN) =
   (lifecycle_of (fst (run new_session es)) = Connecting
    \<or> lifecycle_of (fst (run new_session es)) = Active)"
  using run_destroyed_inv [of es] by (auto simp add: lifecycle_of_def)

text \<open>
  Claim C5, as the code has it. The interval is set when the Session is created, in the
  connecting state, while the backend connect is still in flight. It stays set across
  every event but the client close event, which clears it: after any events \<open>es\<close> of a
  new Session it is set exactly when no client close event is among them, and once cleared
  it is never set again. \<open>ws.ping()\<close> is called exactly by a tick while the interval
  is set, and a tick changes nothing in the Session. A probe signal reaches the wire
  exactly at a tick in the connecting or the active state: in the closing state the
  callback still runs, on a client connection that is no longer open, and sends nothing.
  In every closed state reached the interval is cleared, no event calls \<open>ws.ping()\<close>
  and no probe signal is sent.
\<close>

theorem probe_timer:
  "ka_active new_session \<and> lifecycle_of new_session = Connecting
   \<and> ka_active (fst (step s e)) = (ka_active s \<and> e \<noteq> WsCloseEvent)
   \<and> (WsPing \<in> set (snd (step s e))) = (e = Tick \<and> ka_active s)
   \<and> fst (step s Tick) = s
   \<and> ka_active (fst (run new_session es)) = (WsCloseEvent \<notin> set es)
   \<and> probe_sent (fst (run new_session es)) e =
       (e = Tick \<and> (lifecycle_of (fst (run new_session es)) = Connecting
                    \<or> lifecycle_of (fst (run new_session es)) = Active))
   \<and> (lifecycle_of (fst (run new_session es)) = Closed \<longrightarrow>
        \<not> ka_active (fst (run new_session es))
        \<and> WsPing \<notin> set (snd (step (fst (run new_session es)) e))
        \<and> \<not> probe_sent (fst (run new_session es)) e)"
proof -
  let ?s = "fst (run new_session es)"
  have a: "ka_active new_session \<and> lifecycle_of new_session = Connecting"
    by (simp add: new_session_def lifecycle_of_def)
  have b: "fst (step s Tick) = s" by simp
  have k: "ka_active ?s = (WsCloseEvent \<notin> set es)"
    by (simp add: run_ka new_session_def)
  have c: "(ws_ready ?s = CLOSED) = (WsCloseEvent \<in> set es)"
    by (simp add: run_ws_closed new_session_def)
  have o: "ws_ready ?s = OPEN \<Longrightarrow> ka_active ?s"
    using k c by auto
  have p: "probe_sent ?s e =
       (e = Tick \<and> (lifecycle_of ?s = Connecting \<or> lifecycle_of ?s = Active))"
    unfolding probe_sent_def step_ping open_lifecycle [symmetric] using o by auto
  have d: "lifecycle_of ?s = Closed \<longrightarrow>
        \<not> ka_active ?s \<and> WsPing \<notin> set (snd (step ?s e)) \<and> \<not> probe_sent ?s e"
  proof
    assume cl: "lifecycle_of ?s = Closed"
    then have "ws_ready ?s = CLOSED" by (simp add: lifecycle_of_def split: if_splits)
    with k c have nk: "\<not> ka_active ?s" by simp
    then have np: "WsPing \<notin> set (snd (step ?s e))" by (simp only: step_ping) simp
    from cl p have "\<not> probe_sent ?s e" by simp
    with nk np show "\<not> ka_active ?s \<and> WsPing \<notin> set (snd (step ?s e)) \<and> \<not> probe_sent ?s e"
      by simp
  qed
  from a b k p d step_ka [of s e] step_ping [of s e] show ?thesis by blast
qed

text \<open>
  Claim C5, witness: the hypothesis of \<open>probe_timer\<close> holds for a Session that connects,
  is probed once, fails on the backend side, sees one more tick in the closing state and
  then the client close event. The second tick calls \<open>ws.ping()\<close> on the closing
  connection; after the client close event a tick calls nothing.
\<close>

theorem probe_timer_witness:
  "lifecycle_of (fst (run new_session [TcpConnected, Tick, TcpErrorEvent, Tick, WsCloseEvent])) = Closed
   \<and> \<not> ka_active (fst (run new_session [TcpConnected, Tick, TcpErrorEvent, Tick, WsCloseEvent]))
   \<and> WsPing \<notin> set (snd (step (fst (run new_session
        [TcpConnected, Tick, TcpErrorEvent, Tick, WsCloseEvent])) Tick))
   \<and> \<not> probe_sent (fst (run new_session
        [TcpConnected, Tick, TcpErrorEvent, Tick, WsCloseEvent])) Tick
   \<and> snd (run new_session [TcpConnected, Tick, TcpErrorEvent, Tick, WsCloseEvent])
       = [WsPing, TcpDestroy, WsClose, WsPing, TcpDestroy, ClearInterval]"
proof -
  let ?es = "[TcpConnected, Tick, TcpErrorEvent, Tick, WsCloseEvent]"
  have h: "lifecycle_of (fst (run new_session ?es)) = Closed"
    by (simp add: new_session_def closeAll_def lifecycle_of_def)
  have t: "snd (run new_session ?es)
      = [WsPing, TcpDestroy, WsClose, WsPing, TcpDestroy, ClearInterval]"
    by (simp add: new_session_def closeAll_def)
  from probe_timer [where es = ?es and e = Tick] h t show ?thesis
    by blast
qed

text \<open>
  Claim C5 as stated fails: a tick before the backend connect resolves sends a probe
  signal in the connecting state, to an open client of a Session that is not yet active.
\<close>

theorem probe_counterexample:
  "lifecycle_of new_session = Connecting \<and> ws_ready new_session = OPEN
   \<and> \<not> tcp_connected new_session
   \<and> snd (step new_session Tick) = [WsPing]
   \<and> probe_sent new_session Tick"
  by (simp add: new_session_def lifecycle_of_def probe_sent_def)


section \<open>Facts about the address decoder\<close>

text \<open>The definitions an evaluation of the decoder at a given url unfolds.\<close>

lemmas decode_eval =
  wss_on_connection_def wss_on_connection_raw_def try_decode_def buffer_from_base64_def
  unbase64_def decide_def Let_def in_range_def second_lower_def second_upper_def
  utf16_units_def string_to_number_def trim_ws_def is_js_whitespace_def parse_decimal_def
  parse_exponent_def is_digit_def radix_value_def digit_value_def infinity_str_def
  to_double_def floor_log2_def bit_length.simps pow2_def pow10_def round_half_even_def
  radix_literal_def

text \<open>
  Claim C3 fails on the code at two kinds of malformed token. The token \<open>aDo4*MA==\<close>
  holds \<open>*\<close>, which is not in the encoding's alphabet; the decoder skips it, decodes
  \<open>h:80\<close> and the listener goes on to \<open>net.connect\<close>: the \<open>catch\<close> that would
  reject with \<open>'bad base64'\<close> is never reached. The token \<open>aDotMQ==\<close> encodes
  \<open>h:-1\<close>; \<open>Number('-1')\<close> is truthy, so the negative port passes \<open>!port\<close>.
\<close>

theorem malformed_tokens_accepted:
  "wss_on_connection (Some ''/aDo4*MA=='') = Connect [0x68] (Fin 80)
   \<and> wss_on_connection (Some ''/aDotMQ=='') = Connect [0x68] (Fin (- 1))"
  by (simp add: decode_eval)

lemma decide_parts:
  "js_split 0x3A decoded = h # p # others \<Longrightarrow>
   decide reason decoded =
     (if h = [] \<or> not_number (js_number (Some p)) then Reject 1008 reason
      else Connect h (js_number (Some p)))"
  by (simp add: decide_def Let_def)

lemma decide_truncated:
  assumes "js_split 0x3A decoded = h # p # others"
  shows "decide reason decoded = decide reason (h @ 0x3A # p)"
proof -
  have h: "0x3A \<notin> set h" and p: "0x3A \<notin> set p"
    using js_split_parts_no_sep [of _ "0x3A" decoded] assms by auto
  have "js_split 0x3A (h @ 0x3A # p) = [h, p]"
    by (simp add: js_split_append_sep [OF h] js_split_no_sep [OF p])
  then show ?thesis
    by (simp add: decide_parts [OF assms] decide_parts)
qed

text \<open>
  Claim C10, as the code has it, for both variants. When the decoded string has more than
  one \<open>:\<close>, the host is the piece before the first, the port is \<open>Number\<close> of the piece
  between the first and the second, and the later pieces play no part: the outcome is
  that of the truncated string \<open>host:port\<close>. The connection is attempted when the host
  piece is not empty and the port is truthy, and rejected with 1008 otherwise.
\<close>

theorem extra_colons_ignored:
  assumes "js_split 0x3A (utf8_decode (buffer_from_base64 (url_path url))) = h # p # q # others"
  shows "wss_on_connection url =
           (if h = [] \<or> not_number (js_number (Some p)) then Reject 1008 ''need host:port''
            else Connect h (js_number (Some p)))
         \<and> wss_on_connection_raw url =
           (if h = [] \<or> not_number (js_number (Some p))
            then Reject 1008 ''URL must encode host:port''
            else Connect h (js_number (Some p)))
         \<and> decide reason (utf8_decode (buffer_from_base64 (url_path url)))
             = decide reason (h @ 0x3A # p)"
  using decide_parts [OF assms] decide_truncated [OF assms]
  by (simp add: wss_on_connection_def wss_on_connection_raw_def try_decode_def)

text \<open>
  Claim C10, witness: the hypothesis of \<open>extra_colons_ignored\<close> holds for the token
  of \<open>a:80:b\<close>.
\<close>

theorem extra_colons_ignored_witness:
  "js_split 0x3A (utf8_decode (buffer_from_base64 (url_path (Some ''/YTo4MDpi''))))
     = [0x61] # [0x38, 0x30] # [0x62] # []
   \<and> wss_on_connection (Some ''/YTo4MDpi'') = Connect [0x61] (Fin 80)
   \<and> wss_on_connection_raw (Some ''/YTo4MDpi'') = Connect [0x61] (Fin 80)"
proof -
  have h: "js_split 0x3A (utf8_decode (buffer_from_base64 (url_path (Some ''/YTo4MDpi''))))
     = [0x61] # [0x38, 0x30] # [0x62] # []"
    by (simp add: decode_eval)
  have n: "js_number (Some [0x38, 0x30]) = Fin 80"
    by (simp add: decode_eval)
  from extra_colons_ignored [OF h] h n show ?thesis by simp
qed

text \<open>
  Claim C10 as stated fails: the token of \<open>:80:x\<close> has more than one \<open>:\<close> and its
  port piece \<open>80\<close> is truthy, but the host piece is empty, so the connection is rejected.
\<close>

theorem extra_colons_counterexample:
  "js_split 0x3A (utf8_decode (buffer_from_base64 (url_path (Some ''/OjgwOng=''))))
     = [[], [0x38, 0x30], [0x78]]
   \<and> \<not> not_number (js_number (Some [0x38, 0x30]))
   \<and> wss_on_connection (Some ''/OjgwOng='') = Reject 1008 ''need host:port''"
  by (simp add: decode_eval)

section \<open>Facts about the round trip of a destination\<close>

lemma bit_length_le: "n < 2 ^ k \<Longrightarrow> bit_length n \<le> k"
proof (induction k arbitrary: n)
  case 0
  then show ?case by (simp add: bit_length.simps)
next
  case (Suc k)
  then have "n div 2 < 2 ^ k" by simp
  from Suc.IH [OF this] show ?case by (subst bit_length.simps) simp
qed

lemma bit_length_one: "bit_length (Suc 0) = 1"
  by (simp add: bit_length.simps)

lemma floor_log2_nat_le:
  assumes "v < 2 ^ 53"
  shows "floor_log2 (of_nat v) \<le> 52"
proof -
  have q: "quotient_of (of_nat v) = (int v, 1)"
    using quotient_of_int [of "int v"] by simp
  have "bit_length v \<le> 53" using assms by (rule bit_length_le)
  then show ?thesis
    by (simp add: floor_log2_def q Let_def bit_length_one)
qed

lemma pow2_nonpos: "k \<le> 0 \<Longrightarrow> pow2 k = 1 / 2 ^ nat (- k)"
  by (cases "k = 0") (simp_all add: pow2_def)

lemma round_half_even_nat: "round_half_even (of_nat m) = int m"
  by (simp add: round_half_even_def Let_def)

lemma to_double_nat:
  assumes "0 < v" "v < 2 ^ 53"
  shows "to_double (of_nat v) = Fin (of_nat v)"
proof -
  define e where "e = max (floor_log2 (of_nat v)) (- 1022)"
  define n where "n = nat (52 - e)"
  have e: "e \<le> 52" using floor_log2_nat_le [OF assms(2)] by (simp add: e_def)
  then have ulp: "pow2 (e - 52) = 1 / 2 ^ n"
    using pow2_nonpos [of "e - 52"] by (simp add: n_def)
  have "(of_nat v :: rat) / (1 / 2 ^ n) = of_nat (v * 2 ^ n)" by simp
  then have r: "round_half_even ((of_nat v :: rat) / (1 / 2 ^ n)) = int (v * 2 ^ n)"
    by (simp only: round_half_even_nat)
  have undo: "(of_int (int (v * 2 ^ n)) :: rat) * (1 / 2 ^ n) = of_nat v" by simp
  have "(of_nat v :: rat) < of_nat (2 ^ 53)" using assms(2) by (simp only: of_nat_less_iff)
  also have "(of_nat (2 ^ 53) :: rat) \<le> pow2 1024" by (simp add: pow2_def)
  finally have small: "\<not> pow2 1024 \<le> (of_nat v :: rat)" by simp
  have pos: "(of_nat v :: rat) \<noteq> 0" "\<not> (of_nat v :: rat) < 0" "\<bar>of_nat v :: rat\<bar> = of_nat v"
    using assms(1) by simp_all
  show ?thesis
    unfolding to_double_def Let_def pos e_def [symmetric] ulp r undo
    using pos small by (simp only: if_False)
qed

lemma digits_not_ws: "is_digit c \<Longrightarrow> \<not> is_js_whitespace c"
  by (auto simp add: is_digit_def is_js_whitespace_def)

lemma dropWhile_none: "(\<forall>x \<in> set xs. \<not> P x) \<Longrightarrow> dropWhile P xs = xs"
  by (cases xs) simp_all

lemma trim_ws_digits: "list_all is_digit s \<Longrightarrow> trim_ws s = s"
  by (simp add: trim_ws_def dropWhile_none digits_not_ws list_all_iff)

lemma take2_digits:
  assumes "list_all is_digit s" "\<not> is_digit c"
  shows "take 2 s \<noteq> [z, c]"
proof
  assume "take 2 s = [z, c]"
  then have "c \<in> set (take 2 s)" by simp
  then have "c \<in> set s" by (rule in_set_takeD)
  with assms show False by (simp add: list_all_iff)
qed

lemma parse_decimal_digits:
  assumes "s \<noteq> []" "list_all is_digit s"
  shows "parse_decimal s = Some (of_nat (radix_value 10 s))"
proof -
  have t: "takeWhile is_digit s = s" "dropWhile is_digit s = []"
    using assms(2) by (simp_all add: list_all_iff)
  show ?thesis
    using assms(1) by (simp add: parse_decimal_def Let_def t parse_exponent_def pow10_def)
qed

lemma string_to_number_digits:
  assumes "s \<noteq> []" "list_all is_digit s"
  shows "string_to_number s = to_double (of_nat (radix_value 10 s))"
proof -
  have nd: "\<not> is_digit 0x78" "\<not> is_digit 0x58" "\<not> is_digit 0x6F" "\<not> is_digit 0x4F"
    "\<not> is_digit 0x62" "\<not> is_digit 0x42" "\<not> is_digit 0x2D" "\<not> is_digit 0x2B"
    by (simp_all add: is_digit_def)
  have pre: "take 2 s \<noteq> [0x30, 0x78]" "take 2 s \<noteq> [0x30, 0x58]" "take 2 s \<noteq> [0x30, 0x6F]"
    "take 2 s \<noteq> [0x30, 0x4F]" "take 2 s \<noteq> [0x30, 0x62]" "take 2 s \<noteq> [0x30, 0x42]"
    using take2_digits [OF assms(2)] nd by blast+
  have "is_digit (hd s)" using assms by (cases s) simp_all
  then have sg: "hd s \<noteq> 0x2D" "hd s \<noteq> 0x2B" using nd by auto
  have inf: "s \<noteq> infinity_str"
  proof
    assume "s = infinity_str"
    with assms(2) show False by (simp add: infinity_str_def is_digit_def)
  qed
  show ?thesis
    unfolding string_to_number_def trim_ws_digits [OF assms(2)] Let_def
    using assms(1) pre sg inf by (simp add: parse_decimal_digits [OF assms])
qed

lemma js_number_digits:
  assumes "decimal_digits ds" "0 < decimal_value ds" "decimal_value ds < 2 ^ 53"
  shows "js_number (Some ds) = Fin (of_nat (decimal_value ds))"
proof -
  have s: "map unat ds \<noteq> []" "list_all is_digit (map unat ds)"
    using assms(1) by (simp_all add: decimal_digits_def list_all_iff)
  show ?thesis
    using string_to_number_digits [OF s] to_double_nat [OF assms(2,3) [unfolded decimal_value_def]]
    by (simp add: decimal_value_def)
qed

lemma url_path_token: "url_path (Some (CHR ''/'' # token)) = token"
  by simp

lemma digits_plain:
  assumes "decimal_digits ds"
  shows "list_all (\<lambda>u. unat u < 0xD800) (0x3A # ds)" "0x3A \<notin> set ds"
proof -
  have d: "\<forall>u \<in> set ds. 48 \<le> unat u \<and> unat u \<le> 57"
    using assms by (simp add: decimal_digits_def list_all_iff is_digit_def)
  then show "list_all (\<lambda>u. unat u < 0xD800) (0x3A # ds)"
    by (auto simp add: list_all_iff)
  show "0x3A \<notin> set ds"
  proof
    assume "0x3A \<in> set ds"
    with d have "unat (0x3A :: unit16) \<le> 57" by blast
    then show False by simp
  qed
qed

lemma token_decoded:
  assumes "well_formed_utf16 (host @ 0x3A # ds)"
  shows "try_decode (url_path (token_url host ds)) = Inr (host @ 0x3A # ds)"
  unfolding token_url_def url_path_token try_decode_def base64_roundtrip
  by (simp only: utf16_roundtrip [OF assms])

text \<open>
  Claim C6, as the code has it, for both variants. Take a host that is a well-formed
  string, not empty and without \<open>:\<close>, and a port written in decimal digits whose value
  is positive and below \<open>2 ^ 53\<close>. The url built from the base64 encoding of the UTF-8
  octets of \<open>host:port\<close> makes the listener call \<open>net.connect\<close> with exactly that host
  and the number the digits denote.
\<close>

theorem destination_round_trip:
  assumes "well_formed_utf16 host" "host \<noteq> []" "0x3A \<notin> set host"
    and "decimal_digits ds" "0 < decimal_value ds" "decimal_value ds < 2 ^ 53"
  shows "wss_on_connection (token_url host ds) = Connect host (Fin (of_nat (decimal_value ds)))
         \<and> wss_on_connection_raw (token_url host ds)
             = Connect host (Fin (of_nat (decimal_value ds)))"
proof -
  let ?str = "host @ 0x3A # ds"
  have w: "well_formed_utf16 ?str"
    using assms(1) well_formed_utf16_plain [OF digits_plain(1) [OF assms(4)]]
    by (rule well_formed_utf16_append)
  have t: "try_decode (url_path (token_url host ds)) = Inr ?str"
    by (rule token_decoded [OF w])
  have sp: "js_split 0x3A ?str = [host, ds]"
    by (simp add: js_split_append_sep [OF assms(3)] js_split_no_sep [OF digits_plain(2) [OF assms(4)]])
  have n: "js_number (Some ds) = Fin (of_nat (decimal_value ds))"
    by (rule js_number_digits [OF assms(4,5,6)])
  have d: "decide reason ?str = Connect host (Fin (of_nat (decimal_value ds)))" for reason
    using assms(2,5) by (simp add: decide_def Let_def sp n del: js_number.simps)
  show ?thesis
    by (simp add: wss_on_connection_def wss_on_connection_raw_def t d)
qed


lemma char_of_eq_iff: "(char_of (n :: nat) = c) = (n mod 256 = of_char c)"
proof
  assume "char_of n = c"
  then have "(of_char (char_of n) :: nat) = of_char c" by simp
  then show "n mod 256 = of_char c" by simp
next
  assume "n mod 256 = of_char c"
  then have "(of_char (char_of n) :: nat) = of_char c" by simp
  then show "char_of n = c" by (simp only: of_char_eq_iff)
qed

lemmas token_eval =
  token_url_def base64_encode_def b64_char_def utf8_bytes_def is_high_surrogate_def
  is_low_surrogate_def decimal_digits_def decimal_value_def is_digit_def radix_value_def
  digit_value_def char_of_eq_iff

text \<open>
  Claim C6, witness: the hypotheses of \<open>destination_round_trip\<close> hold for
  \<open>h:80\<close>.
\<close>

theorem destination_round_trip_witness:
  "well_formed_utf16 [0x68] \<and> decimal_digits [0x38, 0x30] \<and> decimal_value [0x38, 0x30] = 80
   \<and> token_url [0x68] [0x38, 0x30] = Some ''/aDo4MA==''
   \<and> wss_on_connection (Some ''/aDo4MA=='') = Connect [0x68] (Fin 80)
   \<and> wss_on_connection_raw (Some ''/aDo4MA=='') = Connect [0x68] (Fin 80)"
proof -
  have w: "well_formed_utf16 [0x68]"
    by (simp add: is_high_surrogate_def is_low_surrogate_def)
  have n: "([0x68] :: jsstring) \<noteq> []" "0x3A \<notin> set ([0x68] :: jsstring)" by simp_all
  have d: "decimal_digits [0x38, 0x30]" by (simp add: token_eval)
  have v: "decimal_value [0x38, 0x30] = 80" by (simp add: token_eval)
  have p: "0 < decimal_value [0x38, 0x30]" "decimal_value [0x38, 0x30] < 2 ^ 53"
    unfolding v by simp_all
  have t: "token_url [0x68] [0x38, 0x30] = Some ''/aDo4MA==''"
    by (simp add: token_eval)
  from destination_round_trip [OF w n d p] w d v t show ?thesis
    by simp
qed

text \<open>
  Claim C6 as stated fails. The host \<open>a:b\<close> is not empty and 80 is a positive port, but
  the token of \<open>a:b:80\<close> is rejected: the host is cut at its first \<open>:\<close> and the port
  is read from \<open>b\<close>. And the port 9007199254740993 (\<open>2 ^ 53 + 1\<close>) comes back as
  9007199254740992, the nearest double.
\<close>

theorem destination_round_trip_counterexample:
  "well_formed_utf16 [0x61, 0x3A, 0x62] \<and> decimal_digits [0x38, 0x30]
   \<and> wss_on_connection (token_url [0x61, 0x3A, 0x62] [0x38, 0x30])
       = Reject 1008 ''need host:port''
   \<and> decimal_value [0x39, 0x30, 0x30, 0x37, 0x31, 0x39, 0x39, 0x32, 0x35, 0x34, 0x37, 0x34,
                       0x30, 0x39, 0x39, 0x33] = 9007199254740993
   \<and> wss_on_connection
        (token_url [0x68] [0x39, 0x30, 0x30, 0x37, 0x31, 0x39, 0x39, 0x32, 0x35, 0x34, 0x37,
                           0x34, 0x30, 0x39, 0x39, 0x33])
       = Connect [0x68] (Fin 9007199254740992)"
proof -
  let ?big = "[0x39, 0x30, 0x30, 0x37, 0x31, 0x39, 0x39, 0x32, 0x35, 0x34, 0x37, 0x34,
               0x30, 0x39, 0x39, 0x33] :: jsstring"
  have w1: "well_formed_utf16 [0x61, 0x3A, 0x62]"
    by (simp add: is_high_surrogate_def is_low_surrogate_def)
  have w1': "well_formed_utf16 ([0x61, 0x3A, 0x62] @ 0x3A # [0x38, 0x30])"
    by (simp add: is_high_surrogate_def is_low_surrogate_def)
  have w2: "well_formed_utf16 ([0x68] @ 0x3A # ?big)"
    by (simp add: is_high_surrogate_def is_low_surrogate_def)
  have d: "decimal_digits [0x38, 0x30]" by (simp add: token_eval)
  have v: "decimal_value ?big = 9007199254740993" by (simp add: token_eval)
  have r1: "decide ''need host:port'' ([0x61, 0x3A, 0x62] @ 0x3A # [0x38, 0x30])
      = Reject 1008 ''need host:port''"
    by (simp add: decode_eval)
  have fl: "\<lfloor>(9007199254740993 :: rat) / 2\<rfloor> = 4503599627370496"
    by (simp add: floor_eq_iff)
  have r2: "decide ''need host:port'' ([0x68] @ 0x3A # ?big)
      = Connect [0x68] (Fin 9007199254740992)"
    by (simp add: decode_eval fl)
  show ?thesis
    using w1 d v r1 r2
    by (simp only: wss_on_connection_def token_decoded [OF w1'] token_decoded [OF w2]
        sum.case simp_thms)
qed


section \<open>The two variants\<close>

text \<open>
  Claim C9. For every client message the two variants write the same octets to the
  backend. Their teardown handlers are the same function, and their address decoders take
  the same decision on every url (the wording of the rejection reason apart). Towards the
  client they differ on every chunk that arrives while the client is open: the raw variant
  sends the chunk as one binary frame, and the re-segmenting variant never sends a binary
  frame.
\<close>

theorem variants_agree_towards_backend:
  "ws_on_message_raw data = ws_on_message data
   \<and> shutdown s = closeAll s
   \<and> (wss_on_connection url = Connect h p) = (wss_on_connection_raw url = Connect h p)
   \<and> (\<exists>r. wss_on_connection url = Reject 1008 r)
       = (\<exists>r. wss_on_connection_raw url = Reject 1008 r)
   \<and> tcp_on_data_raw OPEN chunk = [WsSendBinary chunk]
   \<and> WsSendBinary chunk \<notin> set (snd (tcp_on_data OPEN tail chunk))"
proof -
  have a: "ws_on_message_raw data = ws_on_message data"
    by (simp add: ws_on_message_raw_def ws_on_message_def)
  have b: "shutdown s = closeAll s"
    by (simp add: shutdown_def closeAll_def)
  have c: "(wss_on_connection url = Connect h p) = (wss_on_connection_raw url = Connect h p)"
    "(\<exists>r. wss_on_connection url = Reject 1008 r)
       = (\<exists>r. wss_on_connection_raw url = Reject 1008 r)"
    by (auto simp add: wss_on_connection_def wss_on_connection_raw_def try_decode_def
        decide_def Let_def split: option.splits)
  have d: "tcp_on_data_raw OPEN chunk = [WsSendBinary chunk]"
    by (simp add: tcp_on_data_raw_def)
  have e: "WsSendBinary chunk \<notin> set (snd (tcp_on_data OPEN tail chunk))"
    by (auto simp add: tcp_on_data_eq)
  from a b c d e show ?thesis by blast
qed

end
